theory Spec2Isabelle
  imports Main "HOL-Library.Sublist"
begin

section \<open>Python strings\<close>

text \<open>
  A Python \<open>str\<close> is a sequence of Unicode code points. A code point is modelled as a
  natural number and a string as a list of them, so that the characters outside ASCII
  that the program handles (the \<open>U+017C\<close> of its fallback message, the Unicode white
  space that \<open>str.strip\<close> and \<open>\s\<close> accept) are single characters, as in Python.
  \<open>str\<close> turns an ASCII literal into such a string.
\<close>

type_synonym pystr = "nat list"

definition str :: "string \<Rightarrow> pystr" where
  "str s = map of_char s"

text \<open>
  \<open>str.isspace\<close> on one character (CPython's \<open>Py_UNICODE_ISSPACE\<close>): the ASCII
  white space \<open>\t \n \v \f \r\<close>, \<open>0x1C\<close> to \<open>0x1F\<close> and the blank, then \<open>U+0085\<close>,
  \<open>U+00A0\<close>, \<open>U+1680\<close>, \<open>U+2000\<close> to \<open>U+200A\<close>, \<open>U+2028\<close>, \<open>U+2029\<close>, \<open>U+202F\<close>,
  \<open>U+205F\<close> and \<open>U+3000\<close>. The same test decides \<open>\s\<close> in a \<open>str\<close> pattern of \<open>re\<close>.
\<close>

definition isspace :: "nat \<Rightarrow> bool" where
  "isspace c \<longleftrightarrow>
     (9 \<le> c \<and> c \<le> 13) \<or> (28 \<le> c \<and> c \<le> 32) \<or> c = 133 \<or> c = 160 \<or> c = 5760 \<or>
     (8192 \<le> c \<and> c \<le> 8202) \<or> c = 8232 \<or> c = 8233 \<or> c = 8239 \<or> c = 8287 \<or> c = 12288"

text \<open>\<open>s.strip()\<close>: white space removed at both ends.\<close>

definition strip :: "pystr \<Rightarrow> pystr" where
  "strip s = rev (dropWhile isspace (rev (dropWhile isspace s)))"

datatype error = ValueError | IndexError

text \<open>\<open>s.find(sep)\<close>: the lowest index at which \<open>sep\<close> occurs in \<open>s\<close>, if any.\<close>

fun find_str :: "pystr \<Rightarrow> pystr \<Rightarrow> nat option" where
  "find_str sep [] = (if sep = [] then Some 0 else None)"
| "find_str sep (c # cs) =
     (if prefix sep (c # cs) then Some 0 else map_option Suc (find_str sep cs))"

lemma find_str_Some:
  "find_str sep s = Some i \<Longrightarrow> i + length sep \<le> length s \<and> prefix sep (drop i s)"
proof (induction s arbitrary: i)
  case Nil
  then show ?case by (simp split: if_splits)
next
  case (Cons c cs)
  show ?case
  proof (cases "prefix sep (c # cs)")
    case True
    with Cons.prems have "i = 0" by simp
    with True prefix_length_le [OF True] show ?thesis by simp
  next
    case False
    with Cons.prems obtain j where j: "find_str sep cs = Some j" "i = Suc j"
      by auto
    from Cons.IH [OF j(1)] j(2) show ?thesis by simp
  qed
qed

text \<open>
  \<open>s.split(sep)\<close> for a separator that is given: the pieces between the occurrences of
  \<open>sep\<close>, found from left to right without overlap. Python raises \<open>ValueError\<close> on
  an empty separator.
\<close>

function split_pieces :: "pystr \<Rightarrow> pystr \<Rightarrow> pystr list" where
  "split_pieces sep s =
     (case find_str sep s of
        None \<Rightarrow> [s]
      | Some i \<Rightarrow>
          if sep = [] then [s]
          else take i s # split_pieces sep (drop (i + length sep) s))"
  by pat_completeness auto
termination
proof (relation "measure (\<lambda>(sep, s). length s)")
  show "wf (measure (\<lambda>(sep, s). length s))" by simp
next
  fix sep s :: pystr and i
  assume a: "find_str sep s = Some i" "sep \<noteq> []"
  define n where "n = i + length sep"
  from a have "n \<le> length s" "0 < n"
    using find_str_Some [of sep s i] by (auto simp: n_def)
  then have "length s - n < length s" by arith
  then show "((sep, drop (i + length sep) s), (sep, s)) \<in> measure (\<lambda>(sep, s). length s)"
    by (simp add: n_def)
qed

declare split_pieces.simps [simp del]

definition split :: "pystr \<Rightarrow> pystr \<Rightarrow> error + pystr list" where
  "split s sep = (if sep = [] then Inl ValueError else Inr (split_pieces sep s))"

text \<open>\<open>xs[i]\<close> for an index that is not negative: \<open>IndexError\<close> out of range.\<close>

definition getitem :: "'a list \<Rightarrow> nat \<Rightarrow> error + 'a" where
  "getitem xs i = (if i < length xs then Inr (xs ! i) else Inl IndexError)"

text \<open>\<open>sep.join(parts)\<close>.\<close>

fun join :: "pystr \<Rightarrow> pystr list \<Rightarrow> pystr" where
  "join sep [] = []"
| "join sep [p] = p"
| "join sep (p # q # ps) = p @ sep @ join sep (q # ps)"

text \<open>The number of positions of \<open>s\<close> at which \<open>sep\<close> occurs.\<close>

fun occurrences :: "pystr \<Rightarrow> pystr \<Rightarrow> nat" where
  "occurrences sep [] = 0"
| "occurrences sep (c # cs) = (if prefix sep (c # cs) then 1 else 0) + occurrences sep cs"

section \<open>The parser of open questions\<close>

text \<open>
  \<^verbatim>\<open>
  def parse_open_questions(raw_text: str):
      questions = []
      parts = raw_text.split("Start:")
      for part in parts[1:]:
          try:
              question_text = part.split("End:")[0].strip()
              questions.append(question_text)
          except IndexError:
              continue
      return questions
  \<close>
  The loop body may raise inside \<open>try\<close>; an \<open>IndexError\<close> is caught and the part skipped,
  any other exception leaves the function.
\<close>

definition Start_marker :: pystr where
  "Start_marker = str ''Start:''"

definition End_marker :: pystr where
  "End_marker = str ''End:''"

definition open_question_text :: "pystr \<Rightarrow> error + pystr" where
  "open_question_text part =
     (case split part End_marker of
        Inl e \<Rightarrow> Inl e
      | Inr pieces \<Rightarrow>
          (case getitem pieces 0 of
             Inl e \<Rightarrow> Inl e
           | Inr piece \<Rightarrow> Inr (strip piece)))"

fun open_loop :: "pystr list \<Rightarrow> pystr list \<Rightarrow> error + pystr list" where
  "open_loop [] questions = Inr questions"
| "open_loop (part # parts) questions =
     (case open_question_text part of
        Inr question_text \<Rightarrow> open_loop parts (questions @ [question_text])
      | Inl IndexError \<Rightarrow> open_loop parts questions
      | Inl e \<Rightarrow> Inl e)"

definition parse_open_questions :: "pystr \<Rightarrow> error + pystr list" where
  "parse_open_questions raw_text =
     (case split raw_text Start_marker of
        Inl e \<Rightarrow> Inl e
      | Inr parts \<Rightarrow> open_loop (drop 1 parts) [])"

section \<open>More of Python's strings: \<open>splitlines\<close> and \<open>int\<close>\<close>

text \<open>
  \<open>s.splitlines()\<close>: the lines of \<open>s\<close> without their line breaks. A line break is one of
  \<open>\n\<close>, \<open>\r\<close>, \<open>\v\<close>, \<open>\f\<close>, \<open>0x1C\<close>, \<open>0x1D\<close>, \<open>0x1E\<close>, \<open>U+0085\<close>, \<open>U+2028\<close>, \<open>U+2029\<close>, and
  \<open>\r\n\<close> counts as one. A string that ends with a line break has no empty last line.
  \<open>cur\<close> holds the characters of the current line, last first.
\<close>

definition islinebreak :: "nat \<Rightarrow> bool" where
  "islinebreak c \<longleftrightarrow>
     (10 \<le> c \<and> c \<le> 13) \<or> (28 \<le> c \<and> c \<le> 30) \<or> c = 133 \<or> c = 8232 \<or> c = 8233"

fun splitlines_from :: "pystr \<Rightarrow> pystr \<Rightarrow> pystr list" where
  "splitlines_from cur [] = (if cur = [] then [] else [rev cur])"
| "splitlines_from cur [c] =
     (if islinebreak c then [rev cur] else [rev (c # cur)])"
| "splitlines_from cur (c # d # cs) =
     (if c = 13 \<and> d = 10 then rev cur # splitlines_from [] cs
      else if islinebreak c then rev cur # splitlines_from [] (d # cs)
      else splitlines_from (c # cur) (d # cs))"

definition splitlines :: "pystr \<Rightarrow> pystr list" where
  "splitlines s = splitlines_from [] s"

text \<open>
  The table of Unicode decimal digits (\<open>Py_UNICODE_ISDECIMAL\<close> and the value of the
  digit) belongs to the Python runtime, not to the program: it is a parameter, a partial
  function from a code point to the value of the digit it denotes. \<open>\d\<close> in a \<open>str\<close>
  pattern and \<open>int\<close> both read it. What is known of it: on ASCII it holds \<open>0\<close> to \<open>9\<close>
  and nothing else, a digit has a value below ten, and no digit is white space.
\<close>

type_synonym decimal_table = "nat \<Rightarrow> nat option"

definition ascii_decimal :: decimal_table where
  "ascii_decimal c = (if 48 \<le> c \<and> c \<le> 57 then Some (c - 48) else None)"

definition unicode_decimal :: "decimal_table \<Rightarrow> bool" where
  "unicode_decimal dv \<longleftrightarrow>
     (\<forall>c<128. dv c = ascii_decimal c) \<and>
     (\<forall>c d. dv c = Some d \<longrightarrow> d < 10 \<and> \<not> isspace c)"

text \<open>
  \<open>int(s)\<close> in base ten: white space is trimmed, then an optional sign, then decimal
  digits with single underscores allowed between two digits. Anything else raises
  \<open>ValueError\<close>. (The limit that CPython puts on the number of digits is left out.)
\<close>

fun digit_values :: "decimal_table \<Rightarrow> pystr \<Rightarrow> nat list option" where
  "digit_values dv [] = None"
| "digit_values dv [c] = map_option (\<lambda>d. [d]) (dv c)"
| "digit_values dv (c # c' # cs) =
     (case dv c of
        None \<Rightarrow> None
      | Some d \<Rightarrow>
          if c' = 95 then map_option ((#) d) (digit_values dv cs)
          else map_option ((#) d) (digit_values dv (c' # cs)))"

definition int_of_str :: "decimal_table \<Rightarrow> pystr \<Rightarrow> error + int" where
  "int_of_str dv s =
     (let t = strip s;
          negative = (t \<noteq> [] \<and> hd t = 45);
          body = (if t \<noteq> [] \<and> (hd t = 45 \<or> hd t = 43) then tl t else t)
      in case digit_values dv body of
           None \<Rightarrow> Inl ValueError
         | Some ds \<Rightarrow>
             let n = int (foldl (\<lambda>acc d. 10 * acc + d) 0 ds)
             in Inr (if negative then - n else n))"

section \<open>Regular expressions\<close>

text \<open>
  The part of the syntax of \<open>re\<close> that the program's two patterns use, both compiled
  with \<open>re.DOTALL\<close>: literal text, the classes \<open>.\<close> (any character, as \<open>DOTALL\<close> makes
  it), \<open>\s\<close> and \<open>\d\<close>, the greedy \<open>*\<close> and the lazy \<open>*?\<close> on a class, alternation,
  concatenation and numbered groups.
\<close>

datatype charclass = AnyChar | Whitespace | DecimalDigit

fun in_class :: "decimal_table \<Rightarrow> charclass \<Rightarrow> nat \<Rightarrow> bool" where
  "in_class dv AnyChar c = True"
| "in_class dv Whitespace c = isspace c"
| "in_class dv DecimalDigit c = (dv c \<noteq> None)"

datatype regex =
    Lit pystr
  | One charclass
  | Star charclass
  | LazyStar charclass
  | Alt regex regex
  | Cat regex regex
  | Group nat regex

fun seq :: "regex list \<Rightarrow> regex" where
  "seq [] = Lit []"
| "seq [r] = r"
| "seq (r # rs) = Cat r (seq rs)"

text \<open>
  \<open>re\<close> matches by backtracking: at a choice it takes the first alternative and comes
  back to the next one when the rest of the pattern fails. \<open>run r s c\<close> lists, in that
  order of preference, every way in which \<open>r\<close> matches at the start of \<open>s\<close>: what is left
  of \<open>s\<close> after the match, and the groups captured, added to \<open>c\<close>. The match that \<open>re\<close>
  finds is the first of the list. A greedy star prefers the longest repetition, a lazy
  star the shortest.
\<close>

type_synonym captures = "(nat \<times> pystr) list"

fun star_greedy :: "(nat \<Rightarrow> bool) \<Rightarrow> pystr \<Rightarrow> pystr list" where
  "star_greedy P [] = [[]]"
| "star_greedy P (x # xs) = (if P x then star_greedy P xs else []) @ [x # xs]"

fun star_lazy :: "(nat \<Rightarrow> bool) \<Rightarrow> pystr \<Rightarrow> pystr list" where
  "star_lazy P [] = [[]]"
| "star_lazy P (x # xs) = (x # xs) # (if P x then star_lazy P xs else [])"

primrec run :: "decimal_table \<Rightarrow> regex \<Rightarrow> pystr \<Rightarrow> captures \<Rightarrow> (pystr \<times> captures) list" where
  "run dv (Lit l) s c = (if prefix l s then [(drop (length l) s, c)] else [])"
| "run dv (One k) s c =
     (case s of [] \<Rightarrow> [] | x # xs \<Rightarrow> if in_class dv k x then [(xs, c)] else [])"
| "run dv (Star k) s c = map (\<lambda>s'. (s', c)) (star_greedy (in_class dv k) s)"
| "run dv (LazyStar k) s c = map (\<lambda>s'. (s', c)) (star_lazy (in_class dv k) s)"
| "run dv (Alt a b) s c = run dv a s c @ run dv b s c"
| "run dv (Cat a b) s c = concat (map (\<lambda>(s', c'). run dv b s' c') (run dv a s c))"
| "run dv (Group n a) s c =
     map (\<lambda>(s', c'). (s', (n, take (length s - length s') s) # c')) (run dv a s c)"

text \<open>
  \<open>pattern.findall(text)\<close> for a pattern with two groups or more: the matches are
  searched from left to right, each from the end of the one before, and each gives the
  list of its groups (the empty string for a group that took no part). After a match of
  the empty string the search moves one character on; the program's patterns start with
  \<open>Start:\<close> and never match the empty string.
\<close>

primrec ngroups :: "regex \<Rightarrow> nat" where
  "ngroups (Lit l) = 0"
| "ngroups (One k) = 0"
| "ngroups (Star k) = 0"
| "ngroups (LazyStar k) = 0"
| "ngroups (Alt a b) = ngroups a + ngroups b"
| "ngroups (Cat a b) = ngroups a + ngroups b"
| "ngroups (Group n a) = Suc (ngroups a)"

definition group :: "captures \<Rightarrow> nat \<Rightarrow> pystr" where
  "group c n = (case map_of c n of None \<Rightarrow> [] | Some g \<Rightarrow> g)"

definition groups :: "regex \<Rightarrow> captures \<Rightarrow> pystr list" where
  "groups r c = map (group c) [1..<Suc (ngroups r)]"

function findall :: "decimal_table \<Rightarrow> regex \<Rightarrow> pystr \<Rightarrow> pystr list list" where
  "findall dv r s =
     (case run dv r s [] of
        [] \<Rightarrow> (case s of [] \<Rightarrow> [] | x # t \<Rightarrow> findall dv r t)
      | (s', c) # other \<Rightarrow>
          groups r c #
            (if length s' < length s then findall dv r s'
             else case s of [] \<Rightarrow> [] | x # t \<Rightarrow> findall dv r t))"
  by pat_completeness auto
termination
  by (relation "measure (\<lambda>(dv, r, s). length s)") auto

declare findall.simps [simp del]

section \<open>The parser of multiple-choice questions\<close>

text \<open>
  \<^verbatim>\<open>
  def parse_questions(text: str) -> List[Dict[str, Any]]:
      pattern = re.compile(
          r"Start:\s*(.*?)\s*End:\s*OptionsStart:\s*(.*?)\s*(\d)\s*OptionsEnd:",
          re.DOTALL
      )
      questions = []
      matches = pattern.findall(text)

      for match in matches:
          question_text = match[0].strip()
          options_text = match[1].strip()
          correct_index = int(match[2])

          options = [opt.strip() for opt in options_text.splitlines() if opt.strip()]

          if len(options) != 4:
              continue

          questions.append({
              "question": question_text,
              "options": options,
              "correctOptionIndex": correct_index
          })

      return questions
  \<close>
\<close>

record question_record =
  question :: pystr

record choice_question = question_record +
  options :: "pystr list"
  correctOptionIndex :: int

record binary_question = question_record +
  answer :: int

definition OptionsStart_marker :: pystr where
  "OptionsStart_marker = str ''OptionsStart:''"

definition OptionsEnd_marker :: pystr where
  "OptionsEnd_marker = str ''OptionsEnd:''"

definition questions_pattern :: regex where
  "questions_pattern =
     seq [Lit Start_marker, Star Whitespace, Group 1 (LazyStar AnyChar), Star Whitespace,
          Lit End_marker, Star Whitespace, Lit OptionsStart_marker, Star Whitespace,
          Group 2 (LazyStar AnyChar), Star Whitespace, Group 3 (One DecimalDigit),
          Star Whitespace, Lit OptionsEnd_marker]"

definition option_lines :: "pystr \<Rightarrow> pystr list" where
  "option_lines options_text =
     map strip (filter (\<lambda>opt. strip opt \<noteq> []) (splitlines options_text))"

fun questions_loop ::
  "decimal_table \<Rightarrow> pystr list list \<Rightarrow> choice_question list \<Rightarrow> error + choice_question list"
where
  "questions_loop dv [] questions = Inr questions"
| "questions_loop dv (match # matches) questions =
     (case getitem match 0 of
        Inl e \<Rightarrow> Inl e
      | Inr g0 \<Rightarrow>
     (case getitem match 1 of
        Inl e \<Rightarrow> Inl e
      | Inr g1 \<Rightarrow>
     (case getitem match 2 of
        Inl e \<Rightarrow> Inl e
      | Inr g2 \<Rightarrow>
     (case int_of_str dv g2 of
        Inl e \<Rightarrow> Inl e
      | Inr correct_index \<Rightarrow>
          let question_text = strip g0;
              options_text = strip g1;
              options = option_lines options_text
          in if length options \<noteq> 4 then questions_loop dv matches questions
             else questions_loop dv matches
                    (questions @
                     [\<lparr>question = question_text, options = options,
                       correctOptionIndex = correct_index\<rparr>])))))"

definition parse_questions :: "decimal_table \<Rightarrow> pystr \<Rightarrow> error + choice_question list" where
  "parse_questions dv text = questions_loop dv (findall dv questions_pattern text) []"

text \<open>
  What the loop of \<open>parse_questions\<close> makes of a list of matches, written without the
  loop's accumulator and error cases: the records of the matches that have four option
  lines, in order. (Used to state facts about the parser.)
\<close>

fun records_of :: "decimal_table \<Rightarrow> pystr list list \<Rightarrow> choice_question list" where
  "records_of dv [] = []"
| "records_of dv (m # ms) =
     (let os = option_lines (strip (m ! 1))
      in if length os = 4
         then \<lparr>question = strip (m ! 0), options = os,
               correctOptionIndex = (case int_of_str dv (m ! 2) of Inr n \<Rightarrow> n | Inl e \<Rightarrow> 0)\<rparr>
              # records_of dv ms
         else records_of dv ms)"

section \<open>The parser of true/false questions\<close>

text \<open>
  \<^verbatim>\<open>
  def parse_true_false_binary(raw_text: str):
      questions = []
      pattern = re.compile(
          r"Start:\s*(.*?)\s*End:\s*answerStart:\s*(1|0)\s*answerEnd:",
          re.DOTALL
      )
      matches = pattern.findall(raw_text)

      for match in matches:
          question_text = match[0].strip()
          answer_value = int(match[1])
          questions.append({
              "question": question_text,
              "answer": answer_value
          })

      return questions
  \<close>
\<close>

definition answerStart_marker :: pystr where
  "answerStart_marker = str ''answerStart:''"

definition answerEnd_marker :: pystr where
  "answerEnd_marker = str ''answerEnd:''"

definition true_false_pattern :: regex where
  "true_false_pattern =
     seq [Lit Start_marker, Star Whitespace, Group 1 (LazyStar AnyChar), Star Whitespace,
          Lit End_marker, Star Whitespace, Lit answerStart_marker, Star Whitespace,
          Group 2 (Alt (Lit (str ''1'')) (Lit (str ''0''))), Star Whitespace,
          Lit answerEnd_marker]"

fun true_false_loop ::
  "decimal_table \<Rightarrow> pystr list list \<Rightarrow> binary_question list \<Rightarrow> error + binary_question list"
where
  "true_false_loop dv [] questions = Inr questions"
| "true_false_loop dv (match # matches) questions =
     (case getitem match 0 of
        Inl e \<Rightarrow> Inl e
      | Inr g0 \<Rightarrow>
     (case getitem match 1 of
        Inl e \<Rightarrow> Inl e
      | Inr g1 \<Rightarrow>
     (case int_of_str dv g1 of
        Inl e \<Rightarrow> Inl e
      | Inr answer_value \<Rightarrow>
          true_false_loop dv matches
            (questions @ [\<lparr>question = strip g0, answer = answer_value\<rparr>]))))"

definition parse_true_false_binary ::
  "decimal_table \<Rightarrow> pystr \<Rightarrow> error + binary_question list" where
  "parse_true_false_binary dv raw_text =
     true_false_loop dv (findall dv true_false_pattern raw_text) []"

section \<open>Facts about \<open>find\<close> and \<open>split\<close>\<close>

lemma find_str_None: "find_str sep s = None \<longleftrightarrow> \<not> sublist sep s"
  by (induction s) (auto simp: sublist_Cons_right)

lemma find_str_least: "find_str sep s = Some i \<Longrightarrow> j < i \<Longrightarrow> \<not> prefix sep (drop j s)"
proof (induction s arbitrary: i j)
  case Nil
  then show ?case by (simp split: if_splits)
next
  case (Cons c cs)
  then show ?case by (cases j) (auto split: if_splits)
qed

lemma find_str_first:
  "prefix sep (drop i s) \<Longrightarrow> i \<le> length s \<Longrightarrow> \<forall>j<i. \<not> prefix sep (drop j s) \<Longrightarrow>
   find_str sep s = Some i"
proof (induction s arbitrary: i)
  case Nil
  then show ?case by simp
next
  case (Cons c cs)
  show ?case
  proof (cases i)
    case 0
    with Cons.prems show ?thesis by simp
  next
    case (Suc k)
    with Cons.prems have "\<not> prefix sep (c # cs)" by (metis drop0 zero_less_Suc)
    moreover have "find_str sep cs = Some k"
    proof (rule Cons.IH)
      show "prefix sep (drop k cs)" using Cons.prems Suc by simp
      show "k \<le> length cs" using Cons.prems Suc by simp
      show "\<forall>j<k. \<not> prefix sep (drop j cs)"
      proof (intro allI impI)
        fix j assume "j < k"
        then have "Suc j < i" using Suc by simp
        with Cons.prems have "\<not> prefix sep (drop (Suc j) (c # cs))" by blast
        then show "\<not> prefix sep (drop j cs)" by simp
      qed
    qed
    ultimately show ?thesis using Suc by simp
  qed
qed

lemma find_str_take: "find_str sep s = Some i \<Longrightarrow> sep \<noteq> [] \<Longrightarrow> \<not> sublist sep (take i s)"
proof (induction s arbitrary: i)
  case Nil
  then show ?case by simp
next
  case (Cons c cs)
  show ?case
  proof (cases "prefix sep (c # cs)")
    case True
    with Cons.prems show ?thesis by simp
  next
    case False
    with Cons.prems obtain j where j: "find_str sep cs = Some j" "i = Suc j"
      by auto
    have "\<not> prefix sep (c # take j cs)"
    proof
      assume "prefix sep (c # take j cs)"
      moreover have "prefix (c # take j cs) (c # cs)" by (simp add: take_is_prefix)
      ultimately show False using False prefix_order.trans by blast
    qed
    with Cons.IH [OF j(1) Cons.prems(2)] j(2) show ?thesis
      by (simp add: sublist_Cons_right)
  qed
qed

lemma split_pieces_None: "find_str sep s = None \<Longrightarrow> split_pieces sep s = [s]"
  by (subst split_pieces.simps) simp

lemma split_pieces_Some:
  "find_str sep s = Some i \<Longrightarrow> sep \<noteq> [] \<Longrightarrow>
   split_pieces sep s = take i s # split_pieces sep (drop (i + length sep) s)"
  by (subst split_pieces.simps) simp

lemma split_pieces_not_Nil: "split_pieces sep s \<noteq> []"
  by (subst split_pieces.simps) (simp split: option.split)

lemma split_pieces_hd:
  "hd (split_pieces sep s) = (case find_str sep s of None \<Rightarrow> s | Some i \<Rightarrow> if sep = [] then s else take i s)"
  by (subst split_pieces.simps) (simp split: option.split)

lemma split_pieces_no_sep: "sep \<noteq> [] \<Longrightarrow> p \<in> set (split_pieces sep s) \<Longrightarrow> \<not> sublist sep p"
proof (induction sep s rule: split_pieces.induct)
  case (1 sep s)
  show ?case
  proof (cases "find_str sep s")
    case None
    with "1.prems" have "p = s" by (simp add: split_pieces_None)
    with None show ?thesis by (simp add: find_str_None)
  next
    case (Some i)
    with "1.prems" have "p = take i s \<or> p \<in> set (split_pieces sep (drop (i + length sep) s))"
      by (simp add: split_pieces_Some)
    then show ?thesis
    proof
      assume "p = take i s"
      with Some "1.prems" show ?thesis by (simp add: find_str_take)
    next
      assume "p \<in> set (split_pieces sep (drop (i + length sep) s))"
      with "1.IH" [OF Some] "1.prems" show ?thesis by simp
    qed
  qed
qed

lemma join_Cons: "ps \<noteq> [] \<Longrightarrow> join sep (p # ps) = p @ sep @ join sep ps"
  by (cases ps) simp_all

lemma join_split_pieces: "sep \<noteq> [] \<Longrightarrow> join sep (split_pieces sep s) = s"
proof (induction sep s rule: split_pieces.induct)
  case (1 sep s)
  show ?case
  proof (cases "find_str sep s")
    case None
    then show ?thesis by (simp add: split_pieces_None)
  next
    case (Some i)
    from find_str_Some [OF Some] have "prefix sep (drop i s)" by simp
    then obtain r where r: "drop i s = sep @ r" by (auto simp: prefix_def)
    then have r': "drop (i + length sep) s = r"
      by (metis add.commute append_eq_conv_conj drop_drop)
    have "s = take i s @ sep @ r" using r by (metis append_take_drop_id)
    moreover have "join sep (split_pieces sep s) = take i s @ sep @ join sep (split_pieces sep r)"
      using Some "1.prems" r' by (simp add: split_pieces_Some join_Cons split_pieces_not_Nil)
    moreover have "join sep (split_pieces sep r) = r"
      using "1.IH" [OF Some] "1.prems" r' by simp
    ultimately show ?thesis by simp
  qed
qed

section \<open>Facts about the parser of open questions\<close>

lemma str_simps: "str [] = []" "str (c # cs) = of_char c # str cs"
  by (simp_all add: str_def)

lemma Start_marker_eq: "Start_marker = [83, 116, 97, 114, 116, 58]"
  by (simp add: Start_marker_def str_def)

lemma End_marker_eq: "End_marker = [69, 110, 100, 58]"
  by (simp add: End_marker_def str_def)

lemma open_question_text_eq:
  "open_question_text part = Inr (strip (hd (split_pieces End_marker part)))"
  using split_pieces_not_Nil [of End_marker part]
  by (simp add: open_question_text_def split_def getitem_def End_marker_eq hd_conv_nth)

lemma open_loop_eq:
  "open_loop parts qs = Inr (qs @ map (\<lambda>p. strip (hd (split_pieces End_marker p))) parts)"
  by (induction parts arbitrary: qs) (simp_all add: open_question_text_eq)

lemma parse_open_questions_eq:
  "parse_open_questions t =
     Inr (map (\<lambda>p. strip (hd (split_pieces End_marker p))) (tl (split_pieces Start_marker t)))"
  by (simp add: parse_open_questions_def split_def Start_marker_eq open_loop_eq drop_Suc)

lemma occurrences_none: "\<not> sublist sep s \<Longrightarrow> occurrences sep s = 0"
  by (induction s) (auto simp: sublist_Cons_right)

lemma occurrences_drop:
  "\<forall>j<i. \<not> prefix sep (drop j s) \<Longrightarrow> occurrences sep s = occurrences sep (drop i s)"
proof (induction s arbitrary: i)
  case Nil
  then show ?case by simp
next
  case (Cons c cs)
  show ?case
  proof (cases i)
    case 0
    then show ?thesis by simp
  next
    case (Suc k)
    with Cons.prems have "\<not> prefix sep (c # cs)" by (metis drop0 zero_less_Suc)
    moreover have "\<forall>j<k. \<not> prefix sep (drop j cs)"
    proof (intro allI impI)
      fix j assume "j < k"
      then have "Suc j < i" using Suc by simp
      with Cons.prems have "\<not> prefix sep (drop (Suc j) (c # cs))" by blast
      then show "\<not> prefix sep (drop j cs)" by simp
    qed
    ultimately show ?thesis using Cons.IH [of k] Suc by simp
  qed
qed

lemma occurrences_Start:
  "occurrences Start_marker (Start_marker @ r) = Suc (occurrences Start_marker r)"
  by (simp add: Start_marker_eq)

lemma length_split_Start:
  "length (split_pieces Start_marker s) = Suc (occurrences Start_marker s)"
proof (induction "Start_marker" s rule: split_pieces.induct)
  case (1 s)
  show ?case
  proof (cases "find_str Start_marker s")
    case None
    then show ?thesis by (simp add: split_pieces_None occurrences_none find_str_None)
  next
    case (Some i)
    have ne: "Start_marker \<noteq> []" by (simp add: Start_marker_eq)
    from find_str_Some [OF Some] obtain r where r: "drop i s = Start_marker @ r"
      by (auto simp: prefix_def)
    then have r': "drop (i + length Start_marker) s = r"
      by (metis add.commute append_eq_conv_conj drop_drop)
    have "occurrences Start_marker s = occurrences Start_marker (drop i s)"
      using find_str_least [OF Some] by (intro occurrences_drop) blast
    also have "\<dots> = Suc (occurrences Start_marker r)"
      by (simp only: r occurrences_Start)
    finally show ?thesis
      using "1" [OF Some ne] r' by (simp add: split_pieces_Some [OF Some ne])
  qed
qed

lemma sublist_trans: "sublist xs ys \<Longrightarrow> sublist ys zs \<Longrightarrow> sublist xs zs"
proof -
  assume "sublist xs ys" "sublist ys zs"
  then obtain a b c d where "ys = a @ xs @ b" "zs = c @ ys @ d"
    by (auto simp: sublist_def)
  then have "zs = (c @ a) @ xs @ (b @ d)" by simp
  then show ?thesis unfolding sublist_def by blast
qed

lemma sublist_strip: "sublist (strip x) x"
proof -
  have "prefix (strip x) (dropWhile isspace x)"
    unfolding strip_def by (metis suffix_dropWhile suffix_to_prefix rev_rev_ident)
  moreover have "suffix (dropWhile isspace x) x" by (rule suffix_dropWhile)
  ultimately show ?thesis
    by (meson prefix_imp_sublist suffix_imp_sublist sublist_trans)
qed

lemma split_pieces_hd_first:
  assumes "\<forall>j<length before. \<not> prefix End_marker (drop j (before @ End_marker @ rest))"
  shows "hd (split_pieces End_marker (before @ End_marker @ rest)) = before"
proof -
  have "find_str End_marker (before @ End_marker @ rest) = Some (length before)"
    using assms by (intro find_str_first) simp_all
  then show ?thesis by (simp add: split_pieces_hd End_marker_eq)
qed

section \<open>Claims about the parser of open questions\<close>

text \<open>
  Claim C9. \<open>parse_open_questions\<close> splits its input on the literal marker \<open>Start:\<close>:
  the parts joined by the marker give the input back and no part contains the marker.
  It returns one string for each part after the first, in order, and where such a part
  reads \<open>before @ End: @ rest\<close> with no earlier occurrence of \<open>End:\<close>, the string
  returned for it is \<open>before\<close> trimmed. On \<open>Start: Q1 End: Start: Q2 End:\<close> it returns
  \<open>Q1\<close> and \<open>Q2\<close>.
\<close>

theorem parse_open_questions_split_then_slice:
  "join Start_marker (split_pieces Start_marker raw_text) = raw_text \<and>
   (\<forall>p \<in> set (split_pieces Start_marker raw_text). \<not> sublist Start_marker p) \<and>
   (\<exists>qs. parse_open_questions raw_text = Inr qs \<and>
      length qs = length (split_pieces Start_marker raw_text) - 1 \<and>
      (\<forall>i before rest.
         i < length qs \<and>
         split_pieces Start_marker raw_text ! Suc i = before @ End_marker @ rest \<and>
         (\<forall>j<length before. \<not> prefix End_marker (drop j (before @ End_marker @ rest)))
         \<longrightarrow> qs ! i = strip before)) \<and>
   parse_open_questions (str ''Start: Q1 End: Start: Q2 End:'') = Inr [str ''Q1'', str ''Q2'']"
proof (intro conjI)
  have ne: "Start_marker \<noteq> []" by (simp add: Start_marker_eq)
  show "join Start_marker (split_pieces Start_marker raw_text) = raw_text"
    by (rule join_split_pieces [OF ne])
  show "\<forall>p \<in> set (split_pieces Start_marker raw_text). \<not> sublist Start_marker p"
    using split_pieces_no_sep [OF ne] by blast
  let ?parts = "split_pieces Start_marker raw_text"
  let ?qs = "map (\<lambda>p. strip (hd (split_pieces End_marker p))) (tl ?parts)"
  have "\<forall>i before rest.
         i < length ?qs \<and> ?parts ! Suc i = before @ End_marker @ rest \<and>
         (\<forall>j<length before. \<not> prefix End_marker (drop j (before @ End_marker @ rest)))
         \<longrightarrow> ?qs ! i = strip before"
  proof (intro allI impI, elim conjE)
    fix i before rest
    assume i: "i < length ?qs" and p: "?parts ! Suc i = before @ End_marker @ rest"
      and f: "\<forall>j<length before. \<not> prefix End_marker (drop j (before @ End_marker @ rest))"
    from i have "tl ?parts ! i = ?parts ! Suc i" by (simp add: nth_tl)
    with i p split_pieces_hd_first [OF f] show "?qs ! i = strip before" by simp
  qed
  then show "\<exists>qs. parse_open_questions raw_text = Inr qs \<and>
      length qs = length ?parts - 1 \<and>
      (\<forall>i before rest.
         i < length qs \<and> ?parts ! Suc i = before @ End_marker @ rest \<and>
         (\<forall>j<length before. \<not> prefix End_marker (drop j (before @ End_marker @ rest)))
         \<longrightarrow> qs ! i = strip before)"
    by (intro exI [of _ ?qs]) (simp add: parse_open_questions_eq)
  show "parse_open_questions (str ''Start: Q1 End: Start: Q2 End:'') = Inr [str ''Q1'', str ''Q2'']"
    by (simp add: parse_open_questions_eq split_pieces.simps Start_marker_eq End_marker_eq
        str_def strip_def isspace_def)
qed

theorem parse_open_questions_split_then_slice_witness:
  "\<exists>qs. parse_open_questions (str ''Start: Q1 End:'') = Inr qs \<and> length qs = 1 \<and>
     qs ! 0 = str ''Q1''"
proof -
  let ?t = "str ''Start: Q1 End:''"
  have parts: "split_pieces Start_marker ?t = [[], str '' Q1 End:'']"
    by (simp add: split_pieces.simps Start_marker_eq str_def)
  have frag: "str '' Q1 End:'' = str '' Q1 '' @ End_marker @ []"
    by (simp add: End_marker_eq str_def)
  have first: "\<forall>j<length (str '' Q1 ''). \<not> prefix End_marker (drop j (str '' Q1 '' @ End_marker @ []))"
    by (simp add: End_marker_eq str_def less_Suc_eq numeral_nat all_conj_distrib)
  from parse_open_questions_split_then_slice [of ?t]
  obtain qs where qs: "parse_open_questions ?t = Inr qs"
      "length qs = length (split_pieces Start_marker ?t) - 1"
      "\<forall>i before rest.
         i < length qs \<and>
         split_pieces Start_marker ?t ! Suc i = before @ End_marker @ rest \<and>
         (\<forall>j<length before. \<not> prefix End_marker (drop j (before @ End_marker @ rest)))
         \<longrightarrow> qs ! i = strip before"
    by blast
  from qs(2) parts have len: "length qs = 1" by simp
  have "qs ! 0 = strip (str '' Q1 '')"
  proof -
    have "0 < length qs \<and>
         split_pieces Start_marker ?t ! Suc 0 = str '' Q1 '' @ End_marker @ [] \<and>
         (\<forall>j<length (str '' Q1 ''). \<not> prefix End_marker (drop j (str '' Q1 '' @ End_marker @ [])))"
      using len parts frag first by simp
    with qs(3) show ?thesis by blast
  qed
  moreover have "strip (str '' Q1 '') = str ''Q1''"
    by (simp add: strip_def str_def isspace_def)
  ultimately show ?thesis using qs(1) len by simp
qed

text \<open>
  Claim C10. \<open>parse_open_questions\<close> always returns, with as many strings as there are
  occurrences of \<open>Start:\<close> in the text: the body of its loop never raises
  \<open>IndexError\<close>, so no part is dropped. No returned string contains \<open>Start:\<close> or
  \<open>End:\<close>.
\<close>

theorem parse_open_questions_count:
  "(\<forall>part. open_question_text part \<noteq> Inl IndexError) \<and>
   (\<exists>qs. parse_open_questions raw_text = Inr qs \<and>
      length qs = occurrences Start_marker raw_text \<and>
      (\<forall>q \<in> set qs. \<not> sublist Start_marker q \<and> \<not> sublist End_marker q))"
proof (intro conjI)
  show "\<forall>part. open_question_text part \<noteq> Inl IndexError"
    by (simp add: open_question_text_eq)
  let ?parts = "split_pieces Start_marker raw_text"
  let ?qs = "map (\<lambda>p. strip (hd (split_pieces End_marker p))) (tl ?parts)"
  have sne: "Start_marker \<noteq> []" and ene: "End_marker \<noteq> []"
    by (simp_all add: Start_marker_eq End_marker_eq)
  have "\<not> sublist Start_marker q \<and> \<not> sublist End_marker q" if "q \<in> set ?qs" for q
  proof -
    from that obtain p where p: "p \<in> set (tl ?parts)" "q = strip (hd (split_pieces End_marker p))"
      by auto
    let ?h = "hd (split_pieces End_marker p)"
    from p(1) have "p \<in> set ?parts" by (metis list.set_sel(2) split_pieces_not_Nil)
    then have nS: "\<not> sublist Start_marker p" by (rule split_pieces_no_sep [OF sne])
    have "?h \<in> set (split_pieces End_marker p)" by (simp add: split_pieces_not_Nil)
    then have nE: "\<not> sublist End_marker ?h" by (rule split_pieces_no_sep [OF ene])
    have "sublist ?h p" by (simp add: split_pieces_hd split: option.split)
    then have "sublist q p" using p(2) sublist_strip sublist_trans by blast
    with nS have "\<not> sublist Start_marker q" using sublist_trans by blast
    moreover from nE have "\<not> sublist End_marker q"
      using p(2) sublist_strip sublist_trans by blast
    ultimately show ?thesis by simp
  qed
  then show "\<exists>qs. parse_open_questions raw_text = Inr qs \<and>
      length qs = occurrences Start_marker raw_text \<and>
      (\<forall>q \<in> set qs. \<not> sublist Start_marker q \<and> \<not> sublist End_marker q)"
    by (intro exI [of _ ?qs]) (simp add: parse_open_questions_eq length_split_Start)
qed

theorem parse_open_questions_count_witness:
  "parse_open_questions (str ''a Start: Q1 End: b Start: Q2'') = Inr [str ''Q1'', str ''Q2''] \<and>
   occurrences Start_marker (str ''a Start: Q1 End: b Start: Q2'') = 2 \<and>
   str ''Q1'' \<in> set [str ''Q1'', str ''Q2''] \<and>
   \<not> sublist Start_marker (str ''Q1'') \<and> \<not> sublist End_marker (str ''Q1'')"
proof -
  let ?t = "str ''a Start: Q1 End: b Start: Q2''"
  have ev: "parse_open_questions ?t = Inr [str ''Q1'', str ''Q2'']"
    by (simp add: parse_open_questions_eq split_pieces.simps Start_marker_eq End_marker_eq
        str_def strip_def isspace_def)
  from parse_open_questions_count [of ?t] ev
  have "length [str ''Q1'', str ''Q2''] = occurrences Start_marker ?t"
    and "\<forall>q \<in> set [str ''Q1'', str ''Q2'']. \<not> sublist Start_marker q \<and> \<not> sublist End_marker q"
    by auto
  with ev show ?thesis by simp
qed

text \<open>
  Claim C3 says that a part without an \<open>End:\<close> marker is skipped. The code keeps it:
  \<open>part.split("End:")\<close> returns the whole part as its only piece, index \<open>0\<close> exists,
  and the handler of \<open>IndexError\<close> that would skip the part never runs. On \<open>Start: Q1\<close>
  the part \<open> Q1\<close> has no \<open>End:\<close> and the parser returns \<open>Q1\<close>.
\<close>

theorem parse_open_questions_keeps_unterminated:
  "\<not> sublist End_marker (str '' Q1'') \<and> parse_open_questions (str ''Start: Q1'') = Inr [str ''Q1'']"
  by (simp add: parse_open_questions_eq split_pieces.simps Start_marker_eq End_marker_eq
        str_def strip_def isspace_def sublist_Cons_right)

section \<open>Facts about matching\<close>

lemma OptionsStart_marker_eq:
  "OptionsStart_marker = [79, 112, 116, 105, 111, 110, 115, 83, 116, 97, 114, 116, 58]"
  by (simp add: OptionsStart_marker_def str_def)

lemma OptionsEnd_marker_eq:
  "OptionsEnd_marker = [79, 112, 116, 105, 111, 110, 115, 69, 110, 100, 58]"
  by (simp add: OptionsEnd_marker_def str_def)

lemma answerStart_marker_eq:
  "answerStart_marker = [97, 110, 115, 119, 101, 114, 83, 116, 97, 114, 116, 58]"
  by (simp add: answerStart_marker_def str_def)

lemma answerEnd_marker_eq:
  "answerEnd_marker = [97, 110, 115, 119, 101, 114, 69, 110, 100, 58]"
  by (simp add: answerEnd_marker_def str_def)

lemma run_Cat_Lit:
  "run dv (Cat (Lit m) K) s c = (if prefix m s then run dv K (drop (length m) s) c else [])"
  by simp

lemma run_Cat_Star:
  "run dv (Cat (Star k) K) s c = concat (map (\<lambda>t. run dv K t c) (star_greedy (in_class dv k) s))"
  by (simp add: comp_def)

lemma star_lazy_AnyChar: "star_lazy (\<lambda>c. True) s = map (\<lambda>i. drop i s) [0..<Suc (length s)]"
proof (induction s)
  case Nil
  then show ?case by simp
next
  case (Cons x xs)
  have "[0..<Suc (length (x # xs))] = 0 # map Suc [0..<Suc (length xs)]"
    by (metis length_Cons map_Suc_upt upt_conv_Cons zero_less_Suc)
  then have "map (\<lambda>i. drop i (x # xs)) [0..<Suc (length (x # xs))] =
      (x # xs) # map (\<lambda>i. drop i xs) [0..<Suc (length xs)]"
    by (simp add: comp_def del: upt_Suc)
  then show ?case using Cons by (simp del: upt_Suc)
qed

lemma run_Cat_LazyGroup:
  "run dv (Cat (Group n (LazyStar AnyChar)) K) s c =
     concat (map (\<lambda>i. run dv K (drop i s) ((n, take i s) # c)) [0..<Suc (length s)])"
proof -
  have "in_class dv AnyChar = (\<lambda>c. True)" by (rule ext) simp
  then have "run dv (Group n (LazyStar AnyChar)) s c =
      map (\<lambda>i. (drop i s, (n, take i s) # c)) [0..<Suc (length s)]"
    by (simp add: star_lazy_AnyChar comp_def del: upt_Suc)
  then show ?thesis by (simp add: comp_def del: upt_Suc run.simps(7))
qed

lemma run_Cat_DigitGroup:
  "run dv (Cat (Group n (One DecimalDigit)) K) s c =
     (case s of [] \<Rightarrow> [] | x # xs \<Rightarrow> if dv x \<noteq> None then run dv K xs ((n, [x]) # c) else [])"
  by (cases s) simp_all

lemma run_Group_Lit:
  "run dv (Group n (Lit l)) s c = (if prefix l s then [(drop (length l) s, (n, l) # c)] else [])"
proof (cases "prefix l s")
  case True
  then obtain r where "s = l @ r" by (auto simp: prefix_def)
  then show ?thesis by simp
next
  case False
  then show ?thesis by simp
qed

lemma run_Cat_AltGroup:
  "run dv (Cat (Group n (Alt (Lit a) (Lit b))) K) s c =
     (if prefix a s then run dv K (drop (length a) s) ((n, a) # c) else []) @
     (if prefix b s then run dv K (drop (length b) s) ((n, b) # c) else [])"
proof -
  have "run dv (Group n (Alt (Lit a) (Lit b))) s c =
      run dv (Group n (Lit a)) s c @ run dv (Group n (Lit b)) s c"
    by simp
  then have "run dv (Group n (Alt (Lit a) (Lit b))) s c =
      (if prefix a s then [(drop (length a) s, (n, a) # c)] else []) @
      (if prefix b s then [(drop (length b) s, (n, b) # c)] else [])"
    by (simp only: run_Group_Lit)
  then show ?thesis by (simp del: run.simps(5,7))
qed

lemmas run_closed = run_Cat_Lit run_Cat_Star run_Cat_LazyGroup run_Cat_DigitGroup run_Cat_AltGroup

lemma questions_pattern_run:
  assumes "(s', c) \<in> set (run dv questions_pattern s [])"
  shows "\<exists>g1 g2 d. c = [(3, [d]), (2, g2), (1, g1)] \<and> dv d \<noteq> None \<and> prefix Start_marker s"
  using assms
  apply (simp add: questions_pattern_def run_closed del: run.simps(6,7) upt_Suc
      split: if_splits)
  apply (elim bexE conjE)
  apply (simp split: if_splits list.splits)
  apply blast
  done

lemma true_false_pattern_run:
  assumes "(s', c) \<in> set (run dv true_false_pattern s [])"
  shows "\<exists>g1 g2. c = [(2, g2), (1, g1)] \<and> (g2 = [49] \<or> g2 = [48]) \<and> prefix Start_marker s"
  using assms
  apply (simp add: true_false_pattern_def str_def run_closed del: run.simps(6,7) upt_Suc
      split: if_splits)
  apply (elim bexE conjE)
  apply (simp split: if_splits list.splits)
  apply blast
  done


lemma run_suffix: "(s', c') \<in> set (run dv r s c) \<Longrightarrow> suffix s' s"
proof (induction r arbitrary: s c s' c')
  case (Lit l)
  then show ?case by (auto simp: suffix_drop split: if_splits)
next
  case (One k)
  then show ?case by (auto simp: suffix_ConsI split: list.splits if_splits)
next
  case (Star k)
  have "t \<in> set (star_greedy P u) \<Longrightarrow> suffix t u" for t u P
    by (induction u) (auto simp: suffix_ConsI split: if_splits)
  with Star show ?case by auto
next
  case (LazyStar k)
  have "t \<in> set (star_lazy P u) \<Longrightarrow> suffix t u" for t u P
    by (induction u) (auto simp: suffix_ConsI split: if_splits)
  with LazyStar show ?case by auto
next
  case (Alt a b)
  then show ?case by auto
next
  case (Cat a b)
  from Cat.prems obtain s1 c1 where "(s1, c1) \<in> set (run dv a s c)" "(s', c') \<in> set (run dv b s1 c1)"
    by auto
  with Cat.IH show ?case using suffix_order.trans by blast
next
  case (Group n a)
  then show ?case by auto
qed


lemma findall_no_match:
  "run dv r s [] = [] \<Longrightarrow> findall dv r s = (case s of [] \<Rightarrow> [] | x # t \<Rightarrow> findall dv r t)"
  by (subst findall.simps) simp

lemma findall_match:
  "run dv r s [] = (s', c) # other \<Longrightarrow>
   findall dv r s =
     groups r c # (if length s' < length s then findall dv r s'
                   else case s of [] \<Rightarrow> [] | x # t \<Rightarrow> findall dv r t)"
  by (subst findall.simps) simp


lemma findall_setI:
  "(s', c) \<in> set (run dv r s0 []) \<Longrightarrow> m = groups r c \<Longrightarrow> suffix s0 s \<Longrightarrow>
   \<exists>s0 s' c. (s', c) \<in> set (run dv r s0 []) \<and> m = groups r c \<and> suffix s0 s"
  by (intro exI [of _ s0] exI [of _ s'] exI [of _ c]) simp

lemma findall_set:
  "m \<in> set (findall dv r s) \<Longrightarrow>
   \<exists>s0 s' c. (s', c) \<in> set (run dv r s0 []) \<and> m = groups r c \<and> suffix s0 s"
proof (induction dv r s rule: findall.induct)
  case (1 dv r s)
  show ?case
  proof (cases "run dv r s []")
    case Nil
    from "1.prems" have unf: "m \<in> set (case s of [] \<Rightarrow> [] | x # t \<Rightarrow> findall dv r t)"
      by (simp only: findall_no_match [OF Nil])
    show ?thesis
    proof (cases s)
      case Nil': Nil
      with unf show ?thesis by simp
    next
      case (Cons x t)
      with unf have "m \<in> set (findall dv r t)" by simp
      from "1.IH"(1) [OF Nil Cons this] obtain s0 s' c where
        *: "(s', c) \<in> set (run dv r s0 [])" "m = groups r c" "suffix s0 t" by (elim exE conjE)
      from *(3) Cons have "suffix s0 s" by (simp add: suffix_ConsI)
      with *(1,2) show ?thesis by (rule findall_setI)
    qed
  next
    case (Cons p other)
    obtain s' c where p: "p = (s', c)" by (cases p)
    have run: "run dv r s [] = (s', c) # other" using Cons p by simp
    then have here: "(s', c) \<in> set (run dv r s [])" by simp
    from "1.prems" have unf: "m \<in> set (groups r c #
        (if length s' < length s then findall dv r s'
         else case s of [] \<Rightarrow> [] | x # t \<Rightarrow> findall dv r t))"
      by (simp only: findall_match [OF run])
    show ?thesis
    proof (cases "m = groups r c")
      case True
      from here True show ?thesis by (rule findall_setI) simp
    next
      case False
      show ?thesis
      proof (cases "length s' < length s")
        case True
        with unf False have m: "m \<in> set (findall dv r s')"
          by simp
        from "1.IH"(2) [OF Cons p [symmetric] True m] obtain s0 s'' c' where
          *: "(s'', c') \<in> set (run dv r s0 [])" "m = groups r c'" "suffix s0 s'"
          by (elim exE conjE)
        from run_suffix [OF here] *(3) have "suffix s0 s" by (rule suffix_order.trans [rotated])
        with *(1,2) show ?thesis by (rule findall_setI)
      next
        case nlt: False
        show ?thesis
        proof (cases s)
          case Nil
          with unf False nlt show ?thesis by simp
        next
          case Cons': (Cons x t)
          with unf False nlt have m: "m \<in> set (findall dv r t)"
            by simp
          from "1.IH"(3) [OF Cons p [symmetric] nlt Cons' m]
          obtain s0 s'' c' where
            *: "(s'', c') \<in> set (run dv r s0 [])" "m = groups r c'" "suffix s0 t"
            by (elim exE conjE)
          from *(3) Cons' have "suffix s0 s" by (simp add: suffix_ConsI)
          with *(1,2) show ?thesis by (rule findall_setI)
        qed
      qed
    qed
  qed
qed


lemma findall_Nil: "(\<And>s0. suffix s0 s \<Longrightarrow> run dv r s0 [] = []) \<Longrightarrow> findall dv r s = []"
proof (induction s)
  case Nil
  then show ?case by (simp add: findall.simps)
next
  case (Cons x t)
  have "run dv r (x # t) [] = []" using Cons.prems by simp
  moreover have "findall dv r t = []"
    by (rule Cons.IH) (simp add: Cons.prems suffix_ConsI)
  ultimately show ?case by (simp add: findall.simps)
qed

lemma unicode_decimal_ascii: "unicode_decimal ascii_decimal"
  by (auto simp: unicode_decimal_def ascii_decimal_def isspace_def split: if_splits)

lemma int_of_str_digit:
  assumes "unicode_decimal dv" "dv d = Some v"
  shows "int_of_str dv [d] = Inr (int v)"
proof -
  from assms have ns: "\<not> isspace d" by (auto simp: unicode_decimal_def)
  have "d \<noteq> 45 \<and> d \<noteq> 43"
  proof (rule ccontr)
    assume "\<not> (d \<noteq> 45 \<and> d \<noteq> 43)"
    then have "d < 128" "ascii_decimal d = None" by (auto simp: ascii_decimal_def)
    with assms show False by (auto simp: unicode_decimal_def)
  qed
  with ns assms(2) show ?thesis by (simp add: int_of_str_def strip_def)
qed

lemma unicode_decimal_lt: "unicode_decimal dv \<Longrightarrow> dv d = Some v \<Longrightarrow> v < 10"
  by (auto simp: unicode_decimal_def)


lemma questions_loop_eq:
  assumes "unicode_decimal dv"
    and "\<forall>m \<in> set ms. \<exists>g1 g2 d v. m = [g1, g2, [d]] \<and> dv d = Some v"
  shows "questions_loop dv ms qs = Inr (qs @ records_of dv ms)"
  using assms(2)
proof (induction ms arbitrary: qs)
  case Nil
  then show ?case by simp
next
  case (Cons m ms)
  then obtain g1 g2 d v where m: "m = [g1, g2, [d]]" "dv d = Some v" by auto
  have i: "int_of_str dv [d] = Inr (int v)" by (rule int_of_str_digit [OF assms(1) m(2)])
  from Cons.prems have "\<forall>m \<in> set ms. \<exists>g1 g2 d v. m = [g1, g2, [d]] \<and> dv d = Some v" by simp
  note IH = Cons.IH [OF this]
  show ?case by (simp add: m(1) getitem_def i IH Let_def)
qed

lemma groups_questions_pattern:
  "groups questions_pattern [(3, [d]), (2, g2), (1, g1)] = [g1, g2, [d]]"
  by (simp add: groups_def group_def questions_pattern_def upt_rec)

lemma groups_true_false_pattern:
  "groups true_false_pattern [(2, g2), (1, g1)] = [g1, g2]"
  by (simp add: groups_def group_def true_false_pattern_def upt_rec)

lemma findall_questions_shape:
  assumes "m \<in> set (findall dv questions_pattern text)"
  shows "\<exists>g1 g2 d v. m = [g1, g2, [d]] \<and> dv d = Some v"
proof -
  from findall_set [OF assms] obtain s0 s' c where
    *: "(s', c) \<in> set (run dv questions_pattern s0 [])" "m = groups questions_pattern c"
    by (elim exE conjE)
  from questions_pattern_run [OF *(1)] obtain g1 g2 d where
    c: "c = [(3, [d]), (2, g2), (1, g1)]" "dv d \<noteq> None" by (elim exE conjE)
  from c(2) obtain v where v: "dv d = Some v" by auto
  have "m = [g1, g2, [d]]" unfolding *(2) c(1) by (rule groups_questions_pattern)
  with v show ?thesis by (intro exI [of _ g1] exI [of _ g2] exI [of _ d] exI [of _ v]) simp
qed

lemma findall_true_false_shape:
  assumes "m \<in> set (findall dv true_false_pattern text)"
  shows "\<exists>g1 g2. m = [g1, g2] \<and> (g2 = [49] \<or> g2 = [48])"
proof -
  from findall_set [OF assms] obtain s0 s' c where
    *: "(s', c) \<in> set (run dv true_false_pattern s0 [])" "m = groups true_false_pattern c"
    by (elim exE conjE)
  from true_false_pattern_run [OF *(1)] obtain g1 g2 where
    c: "c = [(2, g2), (1, g1)]" "g2 = [49] \<or> g2 = [48]" by (elim exE conjE)
  have "m = [g1, g2]" unfolding *(2) c(1) by (rule groups_true_false_pattern)
  with c(2) show ?thesis by (intro exI [of _ g1] exI [of _ g2]) simp
qed

lemma parse_questions_eq:
  assumes "unicode_decimal dv"
  shows "parse_questions dv text = Inr (records_of dv (findall dv questions_pattern text))"
  using questions_loop_eq [OF assms, of "findall dv questions_pattern text" "[]"]
    findall_questions_shape [of _ dv "text"]
  by (simp add: parse_questions_def)

lemma int_of_str_binary:
  assumes "unicode_decimal dv"
  shows "int_of_str dv [49] = Inr 1" "int_of_str dv [48] = Inr 0"
proof -
  from assms have "dv 49 = Some 1" "dv 48 = Some 0"
    by (simp_all add: unicode_decimal_def ascii_decimal_def)
  then show "int_of_str dv [49] = Inr 1" "int_of_str dv [48] = Inr 0"
    using int_of_str_digit [OF assms] by fastforce+
qed

lemma true_false_loop_eq:
  assumes "unicode_decimal dv"
    and "\<forall>m \<in> set ms. \<exists>g1 g2. m = [g1, g2] \<and> (g2 = [49] \<or> g2 = [48])"
  shows "true_false_loop dv ms qs =
     Inr (qs @ map (\<lambda>m. \<lparr>question = strip (m ! 0), answer = (if m ! 1 = [49] then 1 else 0)\<rparr>) ms)"
  using assms(2)
proof (induction ms arbitrary: qs)
  case Nil
  then show ?case by simp
next
  case (Cons m ms)
  then obtain g1 g2 where m: "m = [g1, g2]" "g2 = [49] \<or> g2 = [48]" by auto
  from Cons.prems have "\<forall>m \<in> set ms. \<exists>g1 g2. m = [g1, g2] \<and> (g2 = [49] \<or> g2 = [48])" by simp
  note IH = Cons.IH [OF this]
  from m(2) show ?case
    by (auto simp: m(1) getitem_def int_of_str_binary [OF assms(1)] IH)
qed

lemma parse_true_false_binary_eq:
  assumes "unicode_decimal dv"
  shows "parse_true_false_binary dv text =
     Inr (map (\<lambda>m. \<lparr>question = strip (m ! 0), answer = (if m ! 1 = [49] then 1 else 0)\<rparr>)
            (findall dv true_false_pattern text))"
  using true_false_loop_eq [OF assms, of "findall dv true_false_pattern text" "[]"]
    findall_true_false_shape [of _ dv "text"]
  by (simp add: parse_true_false_binary_def)

lemmas marker_eqs = Start_marker_eq End_marker_eq OptionsStart_marker_eq OptionsEnd_marker_eq
  answerStart_marker_eq answerEnd_marker_eq

lemma occurrences_suffix: "suffix a b \<Longrightarrow> occurrences sep a \<le> occurrences sep b"
proof (induction b)
  case Nil
  then show ?case by simp
next
  case (Cons x xs)
  from Cons.prems have "a = x # xs \<or> suffix a xs" by (simp add: suffix_Cons)
  then show ?case
  proof
    assume "a = x # xs"
    then show ?thesis by simp
  next
    assume "suffix a xs"
    from Cons.IH [OF this] show ?thesis by simp
  qed
qed

lemma run_Cat_Lit_suffix:
  assumes "(s', c') \<in> set (run dv (Cat (Lit m) K) s c)"
  shows "prefix m s \<and> suffix s' (drop (length m) s)"
proof -
  from assms have p: "prefix m s" and "(s', c') \<in> set (run dv K (drop (length m) s) c)"
    by (auto split: if_splits)
  from p run_suffix [OF this(2)] show ?thesis by simp
qed

lemma questions_pattern_Start:
  "(s', c) \<in> set (run dv questions_pattern s []) \<Longrightarrow>
   prefix Start_marker s \<and> suffix s' (drop (length Start_marker) s)"
  unfolding questions_pattern_def seq.simps by (rule run_Cat_Lit_suffix)

lemma true_false_pattern_Start:
  "(s', c) \<in> set (run dv true_false_pattern s []) \<Longrightarrow>
   prefix Start_marker s \<and> suffix s' (drop (length Start_marker) s)"
  unfolding true_false_pattern_def seq.simps by (rule run_Cat_Lit_suffix)

lemma findall_length_le:
  assumes st: "\<And>s s' c. (s', c) \<in> set (run dv r s []) \<Longrightarrow>
     prefix Start_marker s \<and> suffix s' (drop (length Start_marker) s)"
  shows "length (findall dv r s) \<le> occurrences Start_marker s"
proof (induction s rule: length_induct)
  case (1 s)
  show ?case
  proof (cases "run dv r s []")
    case Nil
    note f = findall_no_match [OF Nil]
    show ?thesis
    proof (cases s)
      case Nil': Nil
      show ?thesis by (subst f) (simp add: Nil')
    next
      case (Cons x t)
      have "length (findall dv r t) \<le> occurrences Start_marker t"
        using 1 Cons by simp
      then show ?thesis by (subst f) (simp add: Cons)
    qed
  next
    case (Cons p other)
    obtain s' c where p: "p = (s', c)" by (cases p)
    have run: "run dv r s [] = (s', c) # other" using Cons p by simp
    then have "(s', c) \<in> set (run dv r s [])" by simp
    from st [OF this] have pre: "prefix Start_marker s"
      and suf: "suffix s' (drop (length Start_marker) s)" by simp_all
    from pre obtain x t where s: "s = x # t" by (cases s) (simp_all add: Start_marker_eq)
    from suf have "suffix s' t"
      using s suffix_drop suffix_order.trans by (fastforce simp: Start_marker_eq)
    then have len: "length s' < length s" and occ: "occurrences Start_marker s' \<le> occurrences Start_marker t"
      using s by (auto dest: suffix_length_le occurrences_suffix)
    have "length (findall dv r s') \<le> occurrences Start_marker s'"
      using 1 len by simp
    with occ pre len have "Suc (length (findall dv r s')) \<le> occurrences Start_marker s"
      by (simp add: s)
    with len show ?thesis by (subst findall_match [OF run]) simp
  qed
qed

lemma records_of_length: "length (records_of dv ms) \<le> length ms"
  by (induction ms) (simp_all add: Let_def)

lemma records_of_options:
  "map options (records_of dv ms) =
     filter (\<lambda>os. length os = 4) (map (\<lambda>m. option_lines (strip (m ! 1))) ms)"
  by (induction ms) (simp_all add: Let_def)

lemma option_lines_nonempty: "opt \<in> set (option_lines t) \<Longrightarrow> opt \<noteq> []"
  by (auto simp: option_lines_def)

lemma prefix_suffix_sublist: "prefix m s0 \<Longrightarrow> suffix s0 s \<Longrightarrow> sublist m s"
  using sublist_altdef' by blast

lemma findall_questions_none:
  assumes "\<not> sublist Start_marker text"
  shows "findall dv questions_pattern text = []"
proof (rule findall_Nil)
  fix s0 assume suf: "suffix s0 text"
  show "run dv questions_pattern s0 [] = []"
  proof (rule ccontr)
    assume "run dv questions_pattern s0 [] \<noteq> []"
    then obtain s' c where "(s', c) \<in> set (run dv questions_pattern s0 [])"
      by (cases "run dv questions_pattern s0 []") auto
    from questions_pattern_Start [OF this] have "prefix Start_marker s0" by simp
    from prefix_suffix_sublist [OF this suf] assms show False by simp
  qed
qed

lemma findall_true_false_none:
  assumes "\<not> sublist Start_marker text"
  shows "findall dv true_false_pattern text = []"
proof (rule findall_Nil)
  fix s0 assume suf: "suffix s0 text"
  show "run dv true_false_pattern s0 [] = []"
  proof (rule ccontr)
    assume "run dv true_false_pattern s0 [] \<noteq> []"
    then obtain s' c where "(s', c) \<in> set (run dv true_false_pattern s0 [])"
      by (cases "run dv true_false_pattern s0 []") auto
    from true_false_pattern_Start [OF this] have "prefix Start_marker s0" by simp
    from prefix_suffix_sublist [OF this suf] assms show False by simp
  qed
qed

section \<open>The first match of a pattern\<close>

lemma star_greedy_hd: "\<exists>rest. star_greedy P s = dropWhile P s # rest"
  by (induction s) auto

lemma star_greedy_starts:
  "t \<in> set (star_greedy P s) \<Longrightarrow> t = dropWhile P s \<or> (t \<noteq> [] \<and> P (hd t))"
  by (induction s) (auto split: if_splits)

lemma run_Star_first:
  assumes "run dv K (dropWhile (in_class dv k) s) c = x # xs"
  shows "\<exists>ys. run dv (Cat (Star k) K) s c = x # ys"
proof -
  from star_greedy_hd obtain rest where
    "star_greedy (in_class dv k) s = dropWhile (in_class dv k) s # rest" by blast
  with assms show ?thesis by (simp add: run_Cat_Star del: run.simps)
qed

lemma run_Star_skip:
  assumes "\<And>t. t \<noteq> [] \<Longrightarrow> in_class dv k (hd t) \<Longrightarrow> run dv K t c = []"
  shows "run dv (Cat (Star k) K) s c = run dv K (dropWhile (in_class dv k) s) c"
proof (induction s)
  case Nil
  then show ?case by simp
next
  case (Cons x xs)
  show ?case
  proof (cases "in_class dv k x")
    case True
    have "run dv K (x # xs) c = []" using assms [of "x # xs"] True by simp
    with True Cons show ?thesis by (simp add: run_Cat_Star del: run.simps)
  next
    case False
    then show ?thesis by (simp add: run_Cat_Star del: run.simps)
  qed
qed

lemma in_class_Whitespace: "in_class dv Whitespace = isspace"
  by (rule ext) simp

lemma run_ws_Lit:
  assumes "m \<noteq> []" "\<not> isspace (hd m)"
  shows "run dv (Cat (Star Whitespace) (Lit m)) s c =
     (if prefix m (dropWhile isspace s) then [(drop (length m) (dropWhile isspace s), c)] else [])"
proof -
  have "run dv (Lit m) t c = []" if "t \<noteq> []" "in_class dv Whitespace (hd t)" for t
  proof -
    from that assms have "hd t \<noteq> hd m" by auto
    with that(1) assms(1) have "\<not> prefix m t" by (cases t; cases m) auto
    then show ?thesis by simp
  qed
  from run_Star_skip [of dv Whitespace "Lit m" c s, OF this] show ?thesis
    by (simp add: in_class_Whitespace del: run.simps(6))
qed

lemma run_ws_Lit_Cat:
  assumes "m \<noteq> []" "\<not> isspace (hd m)"
  shows "run dv (Cat (Star Whitespace) (Cat (Lit m) K)) s c =
     (if prefix m (dropWhile isspace s)
      then run dv K (drop (length m) (dropWhile isspace s)) c else [])"
proof -
  have "run dv (Cat (Lit m) K) t c = []" if "t \<noteq> []" "in_class dv Whitespace (hd t)" for t
  proof -
    from that assms have "hd t \<noteq> hd m" by auto
    with that(1) assms(1) have "\<not> prefix m t" by (cases t; cases m) auto
    then show ?thesis by simp
  qed
  from run_Star_skip [of dv Whitespace "Cat (Lit m) K" c s, OF this] show ?thesis
    by (simp add: run_Cat_Lit in_class_Whitespace del: run.simps)
qed

lemma run_ws_Digit:
  assumes "unicode_decimal dv"
  shows "run dv (Cat (Star Whitespace) (Cat (Group n (One DecimalDigit)) K)) s c =
     (case dropWhile isspace s of
        [] \<Rightarrow> []
      | x # xs \<Rightarrow> if dv x \<noteq> None then run dv K xs ((n, [x]) # c) else [])"
proof -
  have "run dv (Cat (Group n (One DecimalDigit)) K) t c = []"
    if "t \<noteq> []" "in_class dv Whitespace (hd t)" for t
  proof -
    from that obtain x xs where t: "t = x # xs" "isspace x" by (cases t) auto
    with assms have "dv x = None" by (cases "dv x") (auto simp: unicode_decimal_def)
    with t show ?thesis by (simp add: run_Cat_DigitGroup del: run.simps)
  qed
  from run_Star_skip [of dv Whitespace "Cat (Group n (One DecimalDigit)) K" c s, OF this]
  show ?thesis by (simp add: run_Cat_DigitGroup in_class_Whitespace del: run.simps)
qed

lemma run_Lazy_first:
  assumes "n \<le> length s"
    and "\<And>i. i < n \<Longrightarrow> run dv K (drop i s) ((g, take i s) # c) = []"
    and "run dv K (drop n s) ((g, take n s) # c) = x # xs"
  shows "\<exists>ys. run dv (Cat (Group g (LazyStar AnyChar)) K) s c = x # ys"
proof -
  let ?f = "\<lambda>i. run dv K (drop i s) ((g, take i s) # c)"
  have "[0..<Suc (length s)] = [0..<n] @ n # [Suc n..<Suc (length s)]"
    using assms(1) by (metis le_imp_less_Suc le0 upt_add_eq_append le_add_diff_inverse upt_conv_Cons
        add_0 le_Suc_eq)
  then have "concat (map ?f [0..<Suc (length s)]) =
      concat (map ?f [0..<n]) @ ?f n @ concat (map ?f [Suc n..<Suc (length s)])"
    by (simp del: upt_Suc)
  moreover have "concat (map ?f [0..<n]) = []" using assms(2) by simp
  ultimately show ?thesis using assms(3) by (simp add: run_Cat_LazyGroup del: run.simps upt_Suc)
qed

lemma prefix_straddle:
  assumes "prefix m (r @ t)" "r \<noteq> []" "t \<noteq> []" "hd t \<notin> set (tl m)"
  shows "prefix m r"
proof (rule ccontr)
  assume n: "\<not> prefix m r"
  with assms(1) obtain us where us: "m = r @ us" "prefix us t" by (auto simp: prefix_append)
  with n have "us \<noteq> []" by auto
  with us(2) assms(3) have "hd us = hd t" by (cases us; cases t) auto
  moreover from us(1) assms(2) \<open>us \<noteq> []\<close> have "hd us \<in> set (tl m)" by (cases r) auto
  ultimately show False using assms(4) by simp
qed

text \<open>The pattern of \<open>parse_questions\<close> in four parts, from its end.\<close>

definition index_part :: regex where
  "index_part =
     Cat (Star Whitespace) (Cat (Group 3 (One DecimalDigit))
       (Cat (Star Whitespace) (Lit OptionsEnd_marker)))"

definition options_part :: regex where
  "options_part = Cat (Star Whitespace) (Cat (Group 2 (LazyStar AnyChar)) index_part)"

definition End_part :: regex where
  "End_part =
     Cat (Star Whitespace) (Cat (Lit End_marker)
       (Cat (Star Whitespace) (Cat (Lit OptionsStart_marker) options_part)))"

lemma questions_pattern_parts:
  "questions_pattern =
     Cat (Lit Start_marker) (Cat (Star Whitespace) (Cat (Group 1 (LazyStar AnyChar)) End_part))"
  by (simp add: questions_pattern_def End_part_def options_part_def index_part_def)

lemma run_index_part:
  assumes "unicode_decimal dv"
  shows "run dv index_part s c =
     (case dropWhile isspace s of
        [] \<Rightarrow> []
      | x # xs \<Rightarrow>
          if dv x \<noteq> None \<and> prefix OptionsEnd_marker (dropWhile isspace xs)
          then [(drop (length OptionsEnd_marker) (dropWhile isspace xs), (3, [x]) # c)]
          else [])"
proof -
  have ne: "OptionsEnd_marker \<noteq> []" "\<not> isspace (hd OptionsEnd_marker)"
    by (simp_all add: OptionsEnd_marker_eq isspace_def)
  show ?thesis
    unfolding index_part_def
    by (cases "dropWhile isspace s")
      (simp_all only: run_ws_Digit [OF assms] run_ws_Lit [OF ne] list.case if_False
        split: if_split, simp_all)
qed

lemma run_End_part:
  "run dv End_part s c =
     (if prefix End_marker (dropWhile isspace s)
      then (let s1 = drop (length End_marker) (dropWhile isspace s)
            in if prefix OptionsStart_marker (dropWhile isspace s1)
               then run dv options_part
                      (drop (length OptionsStart_marker) (dropWhile isspace s1)) c
               else [])
      else [])"
proof -
  have e: "End_marker \<noteq> []" "\<not> isspace (hd End_marker)"
    by (simp_all add: End_marker_eq isspace_def)
  have o: "OptionsStart_marker \<noteq> []" "\<not> isspace (hd OptionsStart_marker)"
    by (simp_all add: OptionsStart_marker_eq isspace_def)
  show ?thesis
    unfolding End_part_def
    by (simp only: run_ws_Lit_Cat [OF e] run_ws_Lit_Cat [OF o] Let_def)
qed

text \<open>A string of white space only.\<close>

definition blank :: "pystr \<Rightarrow> bool" where
  "blank w = list_all isspace w"

lemma dropWhile_blank: "blank w \<Longrightarrow> dropWhile isspace (w @ s) = dropWhile isspace s"
  by (simp add: blank_def list_all_iff dropWhile_append2)

lemma dropWhile_tight: "s \<noteq> [] \<Longrightarrow> \<not> isspace (hd s) \<Longrightarrow> dropWhile isspace s = s"
  by (cases s) simp_all

lemma strip_tight:
  assumes "s \<noteq> []" "\<not> isspace (hd s)" "\<not> isspace (last s)"
  shows "strip s = s"
proof -
  have "dropWhile isspace s = s" using assms by (simp add: dropWhile_tight)
  moreover have "dropWhile isspace (rev s) = rev s"
    using assms by (intro dropWhile_tight) (simp_all add: hd_rev)
  ultimately show ?thesis by (simp add: strip_def)
qed

lemma length_dropWhile_less:
  "xs \<noteq> [] \<Longrightarrow> P (hd xs) \<Longrightarrow> length (dropWhile P xs) < length xs"
  by (cases xs) (simp_all add: le_imp_less_Suc length_dropWhile_le)

lemma strip_fixed:
  assumes "strip s = s" "s \<noteq> []"
  shows "\<not> isspace (hd s) \<and> \<not> isspace (last s)"
proof -
  let ?d = "dropWhile isspace s"
  have len: "length (strip s) = length (dropWhile isspace (rev ?d))"
    by (simp add: strip_def)
  have l1: "length (dropWhile isspace (rev ?d)) \<le> length ?d"
    using length_dropWhile_le [of isspace "rev ?d"] by simp
  have l2: "length ?d \<le> length s" by (rule length_dropWhile_le)
  have h: "\<not> isspace (hd s)"
  proof
    assume "isspace (hd s)"
    from length_dropWhile_less [OF assms(2), of isspace, OF this] l1 len assms(1)
    show False by simp
  qed
  then have d: "?d = s" using assms(2) by (simp add: dropWhile_tight)
  have "\<not> isspace (last s)"
  proof
    assume "isspace (last s)"
    then have "isspace (hd (rev s))" using assms(2) by (simp add: hd_rev)
    moreover have "rev s \<noteq> []" using assms(2) by simp
    ultimately have "length (dropWhile isspace (rev s)) < length (rev s)"
      by (rule length_dropWhile_less [rotated])
    with len d assms(1) show False by simp
  qed
  with h show ?thesis by simp
qed

lemma sublist_across:
  assumes "sublist m (a @ c # b)" "c \<notin> set m"
  shows "sublist m a \<or> sublist m b"
proof -
  from assms(1) consider "sublist m a" | "sublist m (c # b)"
    | xs1 xs2 where "m = xs1 @ xs2" "suffix xs1 a" "prefix xs2 (c # b)"
    by (auto simp: sublist_append)
  then show ?thesis
  proof cases
    case 1
    then show ?thesis by simp
  next
    case 2
    then have "prefix m (c # b) \<or> sublist m b" by (simp add: sublist_Cons_right)
    then show ?thesis
    proof
      assume "prefix m (c # b)"
      with assms(2) have "m = []" by (cases m) auto
      then show ?thesis by simp
    next
      assume "sublist m b"
      then show ?thesis by simp
    qed
  next
    case 3
    from 3(1,3) assms(2) have "xs2 = []" by (cases xs2) auto
    with 3(1,2) show ?thesis by auto
  qed
qed

lemma dropWhile_keeps_last:
  assumes "r \<noteq> []" "\<not> isspace (last r)"
  shows "dropWhile isspace r \<noteq> [] \<and> suffix (dropWhile isspace r) r \<and>
     last (dropWhile isspace r) = last r \<and>
     dropWhile isspace (r @ z) = dropWhile isspace r @ z"
proof -
  from assms have ex: "\<exists>x\<in>set r. \<not> isspace x" using last_in_set by blast
  then have ne: "dropWhile isspace r \<noteq> []" by (simp add: dropWhile_eq_Nil_conv)
  have "r = takeWhile isspace r @ dropWhile isspace r" by simp
  with ne have "last (dropWhile isspace r) = last r" by (metis last_appendR)
  moreover from ex have "dropWhile isspace (r @ z) = dropWhile isspace r @ z"
    by (auto simp: dropWhile_append)
  ultimately show ?thesis using ne by (simp add: suffix_dropWhile)
qed

lemma End_part_fails:
  assumes "r \<noteq> []" "\<not> isspace (last r)" "\<not> sublist End_marker r" "blank w"
  shows "run dv End_part (r @ w @ End_marker @ y) c = []"
proof -
  let ?z = "w @ End_marker @ y"
  from dropWhile_keeps_last [OF assms(1,2), of ?z] have
    ne: "dropWhile isspace r \<noteq> []" and suf: "suffix (dropWhile isspace r) r"
    and dw: "dropWhile isspace (r @ ?z) = dropWhile isspace r @ ?z" by simp_all
  have "\<not> prefix End_marker (dropWhile isspace r @ ?z)"
  proof
    assume p: "prefix End_marker (dropWhile isspace r @ ?z)"
    have z: "?z \<noteq> []" by (simp add: End_marker_eq)
    have "hd ?z \<notin> set (tl End_marker)"
    proof (cases w)
      case Nil
      then show ?thesis by (simp add: End_marker_eq)
    next
      case (Cons x xs)
      with assms(4) have "isspace x" by (simp add: blank_def)
      with Cons show ?thesis by (auto simp: End_marker_eq isspace_def)
    qed
    from prefix_straddle [OF p ne z this] have "prefix End_marker (dropWhile isspace r)" .
    from this suf have "sublist End_marker r" by (rule prefix_suffix_sublist)
    with assms(3) show False by simp
  qed
  then show ?thesis by (simp add: run_End_part dw del: run.simps)
qed

lemma End_part_passes:
  assumes "blank w2" "blank w3"
  shows "run dv End_part (w2 @ End_marker @ w3 @ OptionsStart_marker @ y) c =
     run dv options_part y c"
proof -
  have e: "dropWhile isspace (End_marker @ z) = End_marker @ z" for z
    by (simp add: End_marker_eq isspace_def)
  have o: "dropWhile isspace (OptionsStart_marker @ z) = OptionsStart_marker @ z" for z
    by (simp add: OptionsStart_marker_eq isspace_def)
  show ?thesis
    by (simp add: run_End_part dropWhile_blank [OF assms(1)] dropWhile_blank [OF assms(2)] e o
        del: run.simps)
qed

lemma digit_char:
  assumes "unicode_decimal dv" "v < 10"
  shows "dv (48 + v) = Some v" "\<not> isspace (48 + v)" "48 + v \<notin> set (tl OptionsEnd_marker)"
    "48 + v \<noteq> hd OptionsEnd_marker"
proof -
  from assms have "dv (48 + v) = ascii_decimal (48 + v)" by (simp add: unicode_decimal_def)
  moreover have "v \<le> 9" using assms(2) by simp
  ultimately show "dv (48 + v) = Some v" by (simp add: ascii_decimal_def)
  show "\<not> isspace (48 + v)" using assms(2) by (simp add: isspace_def)
  show "48 + v \<notin> set (tl OptionsEnd_marker)" using assms(2)
    by (auto simp: OptionsEnd_marker_eq)
  show "48 + v \<noteq> hd OptionsEnd_marker" using assms(2) by (simp add: OptionsEnd_marker_eq)
qed

lemma index_part_passes:
  assumes "unicode_decimal dv" "blank w5" "blank w6" "v < 10"
  shows "run dv index_part (w5 @ (48 + v) # w6 @ OptionsEnd_marker @ R) c =
     [(R, (3, [48 + v]) # c)]"
proof -
  note d = digit_char [OF assms(1,4)]
  have o: "dropWhile isspace (OptionsEnd_marker @ z) = OptionsEnd_marker @ z" for z
    by (simp add: OptionsEnd_marker_eq isspace_def)
  have "dropWhile isspace (w5 @ (48 + v) # w6 @ OptionsEnd_marker @ R) =
      (48 + v) # w6 @ OptionsEnd_marker @ R"
    using d(2) by (simp add: dropWhile_blank [OF assms(2)])
  then show ?thesis
    by (simp add: run_index_part [OF assms(1)] d(1) dropWhile_blank [OF assms(3)] o
        del: run.simps)
qed

lemma index_part_fails:
  assumes "unicode_decimal dv" "r \<noteq> []" "\<not> isspace (last r)"
    "\<not> sublist OptionsEnd_marker r" "blank w5" "v < 10"
  shows "run dv index_part (r @ w5 @ (48 + v) # y) c = []"
proof -
  note d = digit_char [OF assms(1,6)]
  let ?z = "w5 @ (48 + v) # y"
  from dropWhile_keeps_last [OF assms(2,3), of ?z] have
    ne: "dropWhile isspace r \<noteq> []" and suf: "suffix (dropWhile isspace r) r"
    and la: "last (dropWhile isspace r) = last r"
    and dw: "dropWhile isspace (r @ ?z) = dropWhile isspace r @ ?z" by simp_all
  from ne obtain x r2 where r': "dropWhile isspace r = x # r2" by (cases "dropWhile isspace r") auto
  have z: "?z \<noteq> []" by simp
  have hz: "hd ?z \<notin> set (tl OptionsEnd_marker)"
  proof (cases w5)
    case Nil
    with d(3) show ?thesis by simp
  next
    case (Cons a as)
    with assms(5) have "isspace a" by (simp add: blank_def)
    with Cons show ?thesis by (auto simp: OptionsEnd_marker_eq isspace_def)
  qed
  have "\<not> prefix OptionsEnd_marker (dropWhile isspace (r2 @ ?z))"
  proof (cases "r2 = []")
    case True
    have "dropWhile isspace ?z = (48 + v) # y"
      using d(2) by (simp add: dropWhile_blank [OF assms(5)])
    with True d(4) show ?thesis by (auto simp: OptionsEnd_marker_eq)
  next
    case False
    with la r' assms(3) have l2: "\<not> isspace (last r2)" by simp
    from dropWhile_keeps_last [OF False l2, of ?z] have
      ne3: "dropWhile isspace r2 \<noteq> []" and suf3: "suffix (dropWhile isspace r2) r2"
      and dw3: "dropWhile isspace (r2 @ ?z) = dropWhile isspace r2 @ ?z" by simp_all
    show ?thesis
    proof
      assume "prefix OptionsEnd_marker (dropWhile isspace (r2 @ ?z))"
      then have p: "prefix OptionsEnd_marker (dropWhile isspace r2 @ ?z)" by (simp only: dw3)
      from prefix_straddle [OF p ne3 z hz] have p3: "prefix OptionsEnd_marker (dropWhile isspace r2)" .
      have "suffix r2 (x # r2)" by (simp add: suffix_ConsI)
      with suf3 have "suffix (dropWhile isspace r2) (x # r2)" by (rule suffix_order.trans)
      then have "suffix (dropWhile isspace r2) r" using suf r' suffix_order.trans by metis
      with p3 have "sublist OptionsEnd_marker r" by (rule prefix_suffix_sublist)
      with assms(4) show False by simp
    qed
  qed
  then show ?thesis by (simp add: run_index_part [OF assms(1)] dw r' del: run.simps)
qed

lemma options_group_first:
  assumes "unicode_decimal dv" "ob \<noteq> []" "\<not> isspace (last ob)"
    "\<not> sublist OptionsEnd_marker ob" "blank w5" "blank w6" "v < 10"
  shows "\<exists>ys. run dv (Cat (Group 2 (LazyStar AnyChar)) index_part)
            (ob @ w5 @ (48 + v) # w6 @ OptionsEnd_marker @ R) c =
          (R, (3, [48 + v]) # (2, ob) # c) # ys"
proof (rule run_Lazy_first [where n = "length ob"])
  let ?z = "w5 @ (48 + v) # w6 @ OptionsEnd_marker @ R"
  show "length ob \<le> length (ob @ ?z)" by simp
  show "run dv index_part (drop (length ob) (ob @ ?z)) ((2, take (length ob) (ob @ ?z)) # c) =
      (R, (3, [48 + v]) # (2, ob) # c) # []"
    by (simp add: index_part_passes [OF assms(1,5,6,7)] del: run.simps)
  fix i assume i: "i < length ob"
  then have ne: "drop i ob \<noteq> []" by simp
  from i have la: "\<not> isspace (last (drop i ob))" using assms(3) by (simp add: last_drop)
  have "\<not> sublist OptionsEnd_marker (drop i ob)"
    using assms(4) sublist_drop sublist_trans by blast
  from index_part_fails [OF assms(1) ne la this assms(5,7)] i
  show "run dv index_part (drop i (ob @ ?z)) ((2, take i (ob @ ?z)) # c) = []"
    by (simp del: run.simps)
qed

lemma options_part_first:
  assumes "unicode_decimal dv" "ob \<noteq> []" "\<not> isspace (hd ob)" "\<not> isspace (last ob)"
    "\<not> sublist OptionsEnd_marker ob" "blank w4" "blank w5" "blank w6" "v < 10"
  shows "\<exists>ys. run dv options_part (w4 @ ob @ w5 @ (48 + v) # w6 @ OptionsEnd_marker @ R) c =
          (R, (3, [48 + v]) # (2, ob) # c) # ys"
proof -
  let ?z = "w5 @ (48 + v) # w6 @ OptionsEnd_marker @ R"
  from options_group_first [OF assms(1,2,4,5,7,8,9), of R c] obtain ys where
    ys: "run dv (Cat (Group 2 (LazyStar AnyChar)) index_part) (ob @ ?z) c =
      (R, (3, [48 + v]) # (2, ob) # c) # ys" by (elim exE)
  have "dropWhile isspace (w4 @ ob @ ?z) = ob @ ?z"
    using assms(2,3) by (simp add: dropWhile_blank [OF assms(6)] dropWhile_tight)
  with ys have "run dv (Cat (Group 2 (LazyStar AnyChar)) index_part)
      (dropWhile (in_class dv Whitespace) (w4 @ ob @ ?z)) c =
      (R, (3, [48 + v]) # (2, ob) # c) # ys"
    by (simp only: in_class_Whitespace)
  from run_Star_first [OF this] show ?thesis by (simp only: options_part_def)
qed

lemma question_group_first:
  assumes "q \<noteq> []" "\<not> isspace (last q)" "\<not> sublist End_marker q" "blank w2" "blank w3"
    and "run dv options_part y ((1, q) # c) = x # xs"
  shows "\<exists>ys. run dv (Cat (Group 1 (LazyStar AnyChar)) End_part)
            (q @ w2 @ End_marker @ w3 @ OptionsStart_marker @ y) c = x # ys"
proof (rule run_Lazy_first [where n = "length q"])
  let ?z = "w2 @ End_marker @ w3 @ OptionsStart_marker @ y"
  show "length q \<le> length (q @ ?z)" by simp
  show "run dv End_part (drop (length q) (q @ ?z)) ((1, take (length q) (q @ ?z)) # c) = x # xs"
    using assms(6) by (simp add: End_part_passes [OF assms(4,5)] del: run.simps)
  fix i assume i: "i < length q"
  then have ne: "drop i q \<noteq> []" by simp
  from i have la: "\<not> isspace (last (drop i q))" using assms(2) by (simp add: last_drop)
  have "\<not> sublist End_marker (drop i q)"
    using assms(3) sublist_drop sublist_trans by blast
  from End_part_fails [OF ne la this assms(4)] i
  show "run dv End_part (drop i (q @ ?z)) ((1, take i (q @ ?z)) # c) = []"
    by (simp del: run.simps)
qed

lemma questions_pattern_first:
  assumes "unicode_decimal dv"
    and "q \<noteq> []" "\<not> isspace (hd q)" "\<not> isspace (last q)" "\<not> sublist End_marker q"
    and "ob \<noteq> []" "\<not> isspace (hd ob)" "\<not> isspace (last ob)" "\<not> sublist OptionsEnd_marker ob"
    and "blank w1" "blank w2" "blank w3" "blank w4" "blank w5" "blank w6" "v < 10"
  shows "\<exists>ys. run dv questions_pattern
            (Start_marker @ w1 @ q @ w2 @ End_marker @ w3 @ OptionsStart_marker @ w4 @ ob @
             w5 @ (48 + v) # w6 @ OptionsEnd_marker @ R) [] =
          (R, [(3, [48 + v]), (2, ob), (1, q)]) # ys"
proof -
  let ?y = "w4 @ ob @ w5 @ (48 + v) # w6 @ OptionsEnd_marker @ R"
  let ?zq = "q @ w2 @ End_marker @ w3 @ OptionsStart_marker @ ?y"
  from options_part_first [OF assms(1,6,7,8,9,13,14,15,16), of R "[(1, q)]"] obtain xs where
    "run dv options_part ?y [(1, q)] = (R, [(3, [48 + v]), (2, ob), (1, q)]) # xs"
    by (elim exE)
  from question_group_first [OF assms(2,4,5,11,12) this] obtain ys where
    ys: "run dv (Cat (Group 1 (LazyStar AnyChar)) End_part) ?zq [] =
      (R, [(3, [48 + v]), (2, ob), (1, q)]) # ys" by (elim exE)
  have "dropWhile isspace (w1 @ ?zq) = ?zq"
    using assms(2,3) by (simp add: dropWhile_blank [OF assms(10)] dropWhile_tight)
  with ys have "run dv (Cat (Group 1 (LazyStar AnyChar)) End_part)
      (dropWhile (in_class dv Whitespace) (w1 @ ?zq)) [] =
      (R, [(3, [48 + v]), (2, ob), (1, q)]) # ys"
    by (simp only: in_class_Whitespace)
  from run_Star_first [OF this] obtain zs where
    "run dv (Cat (Star Whitespace) (Cat (Group 1 (LazyStar AnyChar)) End_part)) (w1 @ ?zq) [] =
      (R, [(3, [48 + v]), (2, ob), (1, q)]) # zs" by (elim exE)
  then show ?thesis
    by (simp add: questions_pattern_parts run_Cat_Lit del: run.simps)
qed

lemma splitlines_from_step:
  "\<not> islinebreak x \<Longrightarrow> ys \<noteq> [] \<Longrightarrow>
   splitlines_from cur (x # ys) = splitlines_from (x # cur) ys"
  by (cases ys) (auto simp: islinebreak_def)

lemma splitlines_from_newline:
  "splitlines_from cur (10 # rest) = rev cur # splitlines_from [] rest"
  by (cases rest) (simp_all add: islinebreak_def)

lemma splitlines_from_line:
  "\<not> list_ex islinebreak a \<Longrightarrow>
   splitlines_from cur (a @ 10 # rest) = (rev cur @ a) # splitlines_from [] rest"
proof (induction a arbitrary: cur)
  case Nil
  then show ?case by (simp only: append_Nil splitlines_from_newline append_Nil2)
next
  case (Cons x a)
  then have x: "\<not> islinebreak x" and a: "\<not> list_ex islinebreak a" by simp_all
  have "splitlines_from cur ((x # a) @ 10 # rest) = splitlines_from (x # cur) (a @ 10 # rest)"
    using splitlines_from_step [OF x, of "a @ 10 # rest" cur] by simp
  also have "\<dots> = (rev (x # cur) @ a) # splitlines_from [] rest"
    by (rule Cons.IH [OF a])
  finally show ?case by simp
qed

lemma splitlines_from_last:
  "\<not> list_ex islinebreak a \<Longrightarrow> a \<noteq> [] \<Longrightarrow> splitlines_from cur a = [rev cur @ a]"
proof (induction a arbitrary: cur)
  case Nil
  then show ?case by simp
next
  case (Cons x a)
  then have x: "\<not> islinebreak x" and a: "\<not> list_ex islinebreak a" by simp_all
  show ?case
  proof (cases "a = []")
    case True
    with x show ?thesis by simp
  next
    case False
    have "splitlines_from cur (x # a) = splitlines_from (x # cur) a"
      by (rule splitlines_from_step [OF x False])
    also have "\<dots> = [rev (x # cur) @ a]" by (rule Cons.IH [OF a False])
    finally show ?thesis by simp
  qed
qed

lemma splitlines_four:
  assumes "\<not> list_ex islinebreak o1" "\<not> list_ex islinebreak o2" "\<not> list_ex islinebreak o3"
    "\<not> list_ex islinebreak o4" "o4 \<noteq> []"
  shows "splitlines (join [10] [o1, o2, o3, o4]) = [o1, o2, o3, o4]"
proof -
  have "splitlines (join [10] [o1, o2, o3, o4]) =
      splitlines_from [] (o1 @ 10 # o2 @ 10 # o3 @ 10 # o4)"
    by (simp add: splitlines_def)
  also have "\<dots> = o1 # splitlines_from [] (o2 @ 10 # o3 @ 10 # o4)"
    using splitlines_from_line [OF assms(1), of "[]"] by simp
  also have "\<dots> = o1 # o2 # splitlines_from [] (o3 @ 10 # o4)"
    using splitlines_from_line [OF assms(2), of "[]"] by simp
  also have "\<dots> = o1 # o2 # o3 # splitlines_from [] o4"
    using splitlines_from_line [OF assms(3), of "[]"] by simp
  also have "\<dots> = [o1, o2, o3, o4]"
    using splitlines_from_last [OF assms(4,5), of "[]"] by simp
  finally show ?thesis .
qed

lemma findall_gap:
  "(\<And>i. i < length g \<Longrightarrow> run dv r (drop i (g @ s)) [] = []) \<Longrightarrow>
   findall dv r (g @ s) = findall dv r s"
proof (induction g)
  case Nil
  then show ?case by simp
next
  case (Cons x g)
  have "run dv r ((x # g) @ s) [] = []" using Cons.prems [of 0] by simp
  from findall_no_match [OF this] have "findall dv r ((x # g) @ s) = findall dv r (g @ s)"
    by simp
  moreover have "findall dv r (g @ s) = findall dv r s"
  proof (rule Cons.IH)
    fix i assume "i < length g"
    then have "Suc i < length (x # g)" by simp
    from Cons.prems [OF this] show "run dv r (drop i (g @ s)) [] = []" by simp
  qed
  ultimately show ?case by simp
qed

lemma questions_pattern_fails_in_lead:
  assumes "\<not> sublist Start_marker g" "i < length g"
  shows "run dv questions_pattern (drop i (g @ Start_marker @ y)) [] = []"
proof -
  have "\<not> prefix Start_marker (drop i g @ Start_marker @ y)"
  proof
    assume p: "prefix Start_marker (drop i g @ Start_marker @ y)"
    have "drop i g \<noteq> []" using assms(2) by simp
    moreover have "Start_marker @ y \<noteq> []" by (simp add: Start_marker_eq)
    moreover have "hd (Start_marker @ y) \<notin> set (tl Start_marker)" by (simp add: Start_marker_eq)
    ultimately have "prefix Start_marker (drop i g)" by (rule prefix_straddle [OF p])
    from this suffix_drop have "sublist Start_marker g" by (rule prefix_suffix_sublist)
    with assms(1) show False by simp
  qed
  with assms(2) show ?thesis
    by (simp add: questions_pattern_parts run_Cat_Lit del: run.simps)
qed

section \<open>Well-formed multiple-choice blocks\<close>

text \<open>
  What a well-formed input of \<open>parse_questions\<close> is. A block follows the template
  \<open>Start: question End: OptionsStart: options digit OptionsEnd:\<close>: the four markers in
  this order, any white space (none, too) after each marker, after the question, after
  the options and after the digit; a question that is not empty, has no white space at
  either end and does not contain \<open>End:\<close>; four options, each on its own line, not empty,
  without white space at either end, without a line break and without \<open>OptionsEnd:\<close>
  inside; one digit from 0 to 9. The text that stands before a block (\<open>lead\<close>) does not
  contain \<open>Start:\<close>. A document is a sequence of blocks, each after its lead, and a rest.
\<close>

record choice_block =
  lead :: pystr
  after_Start :: pystr
  block_question :: pystr
  after_question :: pystr
  after_End :: pystr
  after_OptionsStart :: pystr
  block_options :: "pystr list"
  after_options :: pystr
  block_index :: nat
  after_index :: pystr

definition render_block :: "choice_block \<Rightarrow> pystr" where
  "render_block b =
     Start_marker @ after_Start b @ block_question b @ after_question b @
     End_marker @ after_End b @
     OptionsStart_marker @ after_OptionsStart b @ join [10] (block_options b) @
     after_options b @ (48 + block_index b) # after_index b @
     OptionsEnd_marker"

definition tight :: "pystr \<Rightarrow> bool" where
  "tight s \<longleftrightarrow> s \<noteq> [] \<and> strip s = s"

definition well_formed_option :: "pystr \<Rightarrow> bool" where
  "well_formed_option opt \<longleftrightarrow>
     tight opt \<and> \<not> list_ex islinebreak opt \<and> \<not> sublist OptionsEnd_marker opt"

definition well_formed_block :: "choice_block \<Rightarrow> bool" where
  "well_formed_block b \<longleftrightarrow>
     \<not> sublist Start_marker (lead b) \<and>
     blank (after_Start b) \<and> blank (after_question b) \<and> blank (after_End b) \<and>
     blank (after_OptionsStart b) \<and> blank (after_options b) \<and> blank (after_index b) \<and>
     tight (block_question b) \<and> \<not> sublist End_marker (block_question b) \<and>
     length (block_options b) = 4 \<and> list_all well_formed_option (block_options b) \<and>
     block_index b < 10"

fun document :: "choice_block list \<Rightarrow> pystr \<Rightarrow> pystr" where
  "document [] rest = rest"
| "document (b # bs) rest = lead b @ render_block b @ document bs rest"

definition block_record :: "choice_block \<Rightarrow> choice_question" where
  "block_record b =
     \<lparr>question = block_question b, options = block_options b,
      correctOptionIndex = int (block_index b)\<rparr>"

lemma tight_ends: "tight s \<Longrightarrow> s \<noteq> [] \<and> \<not> isspace (hd s) \<and> \<not> isspace (last s) \<and> strip s = s"
  using strip_fixed [of s] by (simp add: tight_def)

lemma four_options:
  assumes "length opts = 4"
  obtains o1 o2 o3 o4 where "opts = [o1, o2, o3, o4]"
proof -
  from assms obtain o1 r1 where "opts = o1 # r1" "length r1 = 3" by (cases opts) auto
  moreover then obtain o2 r2 where "r1 = o2 # r2" "length r2 = 2" by (cases r1) auto
  moreover then obtain o3 r3 where "r2 = o3 # r3" "length r3 = 1" by (cases r2) auto
  moreover then obtain o4 where "r3 = [o4]" by (cases r3) auto
  ultimately show ?thesis using that by simp
qed

lemma options_block:
  assumes "well_formed_option o1" "well_formed_option o2" "well_formed_option o3"
    "well_formed_option o4"
  shows "join [10] [o1, o2, o3, o4] \<noteq> []"
    and "\<not> isspace (hd (join [10] [o1, o2, o3, o4]))"
    and "\<not> isspace (last (join [10] [o1, o2, o3, o4]))"
    and "\<not> sublist OptionsEnd_marker (join [10] [o1, o2, o3, o4])"
    and "option_lines (strip (join [10] [o1, o2, o3, o4])) = [o1, o2, o3, o4]"
proof -
  let ?ob = "join [10] [o1, o2, o3, o4]"
  note t = assms [unfolded well_formed_option_def]
  from t have e1: "o1 \<noteq> []" "\<not> isspace (hd o1)" and e4: "o4 \<noteq> []" "\<not> isspace (last o4)"
    using tight_ends by blast+
  from t have s: "strip o1 = o1" "strip o2 = o2" "strip o3 = o3" "strip o4 = o4"
    and n: "o1 \<noteq> []" "o2 \<noteq> []" "o3 \<noteq> []" "o4 \<noteq> []"
    by (simp_all add: tight_def)
  show ne: "?ob \<noteq> []" using e1 by simp
  show h: "\<not> isspace (hd ?ob)" using e1 by simp
  show l: "\<not> isspace (last ?ob)" using e4 by simp
  have ten: "10 \<notin> set OptionsEnd_marker" by (simp add: OptionsEnd_marker_eq)
  show "\<not> sublist OptionsEnd_marker ?ob"
  proof
    assume "sublist OptionsEnd_marker ?ob"
    then have "sublist OptionsEnd_marker (o1 @ 10 # (o2 @ 10 # (o3 @ 10 # o4)))" by simp
    from sublist_across [OF this ten] t have "sublist OptionsEnd_marker (o2 @ 10 # (o3 @ 10 # o4))"
      by simp
    from sublist_across [OF this ten] t have "sublist OptionsEnd_marker (o3 @ 10 # o4)" by simp
    from sublist_across [OF this ten] t show False by simp
  qed
  have "strip ?ob = ?ob" by (rule strip_tight [OF ne h l])
  moreover have "splitlines ?ob = [o1, o2, o3, o4]"
    using t e4(1) by (intro splitlines_four) simp_all
  ultimately show "option_lines (strip ?ob) = [o1, o2, o3, o4]"
    by (simp add: option_lines_def s n)
qed

lemma findall_block:
  assumes "unicode_decimal dv" "well_formed_block b"
  shows "findall dv questions_pattern (lead b @ render_block b @ R) =
     [block_question b, join [10] (block_options b), [48 + block_index b]] #
     findall dv questions_pattern R"
proof -
  note w = assms(2) [unfolded well_formed_block_def]
  from w obtain o1 o2 o3 o4 where opts: "block_options b = [o1, o2, o3, o4]"
    using four_options by blast
  with w have wo: "well_formed_option o1" "well_formed_option o2" "well_formed_option o3"
    "well_formed_option o4" by simp_all
  note ob = options_block [OF wo, folded opts]
  from w have q: "block_question b \<noteq> []" "\<not> isspace (hd (block_question b))"
    "\<not> isspace (last (block_question b))" using tight_ends by blast+
  from w have nE: "\<not> sublist End_marker (block_question b)" by simp
  from w have bl: "blank (after_Start b)" "blank (after_question b)" "blank (after_End b)"
    "blank (after_OptionsStart b)" "blank (after_options b)" "blank (after_index b)"
    and v: "block_index b < 10" and nS: "\<not> sublist Start_marker (lead b)" by simp_all
  let ?caps = "[(3, [48 + block_index b]), (2, join [10] (block_options b)), (1, block_question b)]"
  from questions_pattern_first [OF assms(1) q nE ob(1-4) bl v, of R] obtain ys where
    run: "run dv questions_pattern (render_block b @ R) [] = (R, ?caps) # ys"
    by (auto simp: render_block_def)
  have len: "length R < length (render_block b @ R)"
    by (simp add: render_block_def Start_marker_eq)
  have "findall dv questions_pattern (render_block b @ R) =
      groups questions_pattern ?caps # findall dv questions_pattern R"
    using len by (subst findall_match [OF run]) simp
  then have here: "findall dv questions_pattern (render_block b @ R) =
      [block_question b, join [10] (block_options b), [48 + block_index b]] #
      findall dv questions_pattern R"
    by (simp only: groups_questions_pattern)
  have "findall dv questions_pattern (lead b @ render_block b @ R) =
      findall dv questions_pattern (render_block b @ R)"
  proof (rule findall_gap)
    fix i assume i: "i < length (lead b)"
    have "render_block b @ R = Start_marker @ drop (length Start_marker) (render_block b @ R)"
      by (simp add: render_block_def)
    with questions_pattern_fails_in_lead [OF nS i,
        of dv "drop (length Start_marker) (render_block b @ R)"]
    show "run dv questions_pattern (drop i (lead b @ render_block b @ R)) [] = []" by simp
  qed
  with here show ?thesis by simp
qed

lemma findall_document:
  assumes "unicode_decimal dv" "list_all well_formed_block bs" "\<not> sublist Start_marker rest"
  shows "findall dv questions_pattern (document bs rest) =
     map (\<lambda>b. [block_question b, join [10] (block_options b), [48 + block_index b]]) bs"
  using assms(2)
proof (induction bs)
  case Nil
  then show ?case by (simp add: findall_questions_none [OF assms(3)])
next
  case (Cons b bs)
  then have b: "well_formed_block b" and bs: "list_all well_formed_block bs" by simp_all
  from findall_block [OF assms(1) b, of "document bs rest"] Cons.IH [OF bs]
  show ?case by simp
qed

lemma records_of_blocks:
  assumes "unicode_decimal dv" "list_all well_formed_block bs"
  shows "records_of dv
       (map (\<lambda>b. [block_question b, join [10] (block_options b), [48 + block_index b]]) bs) =
     map block_record bs"
  using assms(2)
proof (induction bs)
  case Nil
  then show ?case by simp
next
  case (Cons b bs)
  then have b: "well_formed_block b" and bs: "list_all well_formed_block bs" by simp_all
  note w = b [unfolded well_formed_block_def]
  from w obtain o1 o2 o3 o4 where opts: "block_options b = [o1, o2, o3, o4]"
    using four_options by blast
  with w have wo: "well_formed_option o1" "well_formed_option o2" "well_formed_option o3"
    "well_formed_option o4" by simp_all
  have ol: "option_lines (strip (join [10] (block_options b))) = block_options b"
    using options_block(5) [OF wo] by (simp only: opts)
  from w have q: "strip (block_question b) = block_question b" by (simp add: tight_def)
  from w have v: "block_index b < 10" by simp
  have i: "int_of_str dv [48 + block_index b] = Inr (int (block_index b))"
    by (rule int_of_str_digit [OF assms(1) digit_char(1) [OF assms(1) v]])
  from w have len: "length (block_options b) = 4" by simp
  show ?case
    by (simp add: ol q i len block_record_def Cons.IH [OF bs] Let_def)
qed

section \<open>Claims about the parsers that match a pattern\<close>

lemmas eval_simps = parse_questions_def questions_pattern_def findall.simps groups_def group_def
  getitem_def int_of_str_def strip_def isspace_def islinebreak_def option_lines_def
  splitlines_def ascii_decimal_def marker_eqs str_def parse_true_false_binary_def
  true_false_pattern_def

definition three_options_text :: pystr where
  "three_options_text =
     str ''Start: Q1 End: OptionsStart: A'' @ [10] @ str ''B'' @ [10] @ str ''C'' @ [10] @
     str ''2 OptionsEnd:''"

definition digit_seven_text :: pystr where
  "digit_seven_text =
     str ''Start: Q1 End: OptionsStart: A'' @ [10] @ str ''B'' @ [10] @ str ''C'' @ [10] @
     str ''D'' @ [10] @ str ''7 OptionsEnd:''"

lemma decimal_ascii: "unicode_decimal dv \<Longrightarrow> c < 128 \<Longrightarrow> dv c = ascii_decimal c"
  by (simp add: unicode_decimal_def)

text \<open>
  Claim C5. Whatever the text, every record that \<open>parse_questions\<close> returns has exactly
  four options and none of them is empty. The option lists of the records are, in order,
  the option lists of the matched blocks that split into four lines: a block with any
  other count gives no record, and no error. A block with three option lines gives none.
\<close>

theorem parse_questions_four_options:
  assumes "unicode_decimal dv"
  shows "\<exists>rs. parse_questions dv text = Inr rs \<and>
      (\<forall>r \<in> set rs. length (options r) = 4 \<and> (\<forall>opt \<in> set (options r). opt \<noteq> [])) \<and>
      map options rs =
        filter (\<lambda>os. length os = 4)
          (map (\<lambda>m. option_lines (strip (m ! 1))) (findall dv questions_pattern text)) \<and>
      parse_questions dv three_options_text = Inr []"
proof -
  let ?ms = "findall dv questions_pattern text"
  have a: "parse_questions dv text = Inr (records_of dv ?ms)"
    by (rule parse_questions_eq [OF assms])
  have b: "map options (records_of dv ?ms) =
      filter (\<lambda>os. length os = 4) (map (\<lambda>m. option_lines (strip (m ! 1))) ?ms)"
    by (rule records_of_options)
  have c: "\<forall>r \<in> set (records_of dv ?ms).
      length (options r) = 4 \<and> (\<forall>opt \<in> set (options r). opt \<noteq> [])"
  proof
    fix r assume "r \<in> set (records_of dv ?ms)"
    then have "options r \<in> set (map options (records_of dv ?ms))" by simp
    then have "options r \<in> set (filter (\<lambda>os. length os = 4)
        (map (\<lambda>m. option_lines (strip (m ! 1))) ?ms))"
      by (simp only: b)
    then obtain m where "length (options r) = 4" "options r = option_lines (strip (m ! 1))"
      by auto
    then show "length (options r) = 4 \<and> (\<forall>opt \<in> set (options r). opt \<noteq> [])"
      using option_lines_nonempty by metis
  qed
  have d: "parse_questions dv three_options_text = Inr []"
    by (simp add: decimal_ascii [OF assms] three_options_text_def eval_simps)
  from a b c d show ?thesis by simp
qed

theorem parse_questions_four_options_witness:
  "unicode_decimal ascii_decimal \<and>
   parse_questions ascii_decimal digit_seven_text =
     Inr [\<lparr>question = str ''Q1'', options = [str ''A'', str ''B'', str ''C'', str ''D''],
           correctOptionIndex = 7\<rparr>] \<and>
   length [str ''A'', str ''B'', str ''C'', str ''D''] = 4 \<and>
   parse_questions ascii_decimal three_options_text = Inr []"
proof -
  have ev: "parse_questions ascii_decimal digit_seven_text =
     Inr [\<lparr>question = str ''Q1'', options = [str ''A'', str ''B'', str ''C'', str ''D''],
           correctOptionIndex = 7\<rparr>]"
    by (simp add: digit_seven_text_def eval_simps)
  from parse_questions_four_options [OF unicode_decimal_ascii, of digit_seven_text] ev
  have "parse_questions ascii_decimal three_options_text = Inr []"
    and "\<forall>r \<in> set [\<lparr>question = str ''Q1'', options = [str ''A'', str ''B'', str ''C'', str ''D''],
           correctOptionIndex = 7\<rparr>]. length (options r) = 4"
    by auto
  with ev unicode_decimal_ascii show ?thesis by simp
qed

text \<open>
  Claim C6. \<open>parse_questions\<close> does not check that the digit is between 0 and 3: for a
  block of four options that ends with the digit 7 it returns a record whose
  \<open>correctOptionIndex\<close> is 7.
\<close>

theorem parse_questions_digit_unchecked:
  assumes "unicode_decimal dv"
  shows "parse_questions dv digit_seven_text =
     Inr [\<lparr>question = str ''Q1'', options = [str ''A'', str ''B'', str ''C'', str ''D''],
           correctOptionIndex = 7\<rparr>] \<and> (7::int) \<notin> {0..3}"
  by (simp add: decimal_ascii [OF assms] digit_seven_text_def eval_simps)

theorem parse_questions_digit_unchecked_witness:
  "unicode_decimal ascii_decimal \<and>
   (\<exists>r. parse_questions ascii_decimal digit_seven_text = Inr [r] \<and> correctOptionIndex r = 7)"
  using parse_questions_digit_unchecked [OF unicode_decimal_ascii] unicode_decimal_ascii
  by simp

definition earth_text :: pystr where
  "earth_text = str ''Start: Is Earth round? End: answerStart: 1 answerEnd:''"

text \<open>
  Claim C7. \<open>parse_true_false_binary\<close> returns one record for each match of its pattern,
  in order, with the question trimmed and the answer as an integer. The second group of
  a match is \<open>1\<close> or \<open>0\<close>, since the pattern accepts nothing else, so every answer
  is 0 or 1. On \<open>Start: Is Earth round? End: answerStart: 1 answerEnd:\<close> it returns the
  question \<open>Is Earth round?\<close> with answer 1.
\<close>

theorem parse_true_false_binary_answers:
  assumes "unicode_decimal dv"
  shows "\<exists>rs. parse_true_false_binary dv raw_text = Inr rs \<and>
      rs = map (\<lambda>m. \<lparr>question = strip (m ! 0), answer = (if m ! 1 = str ''1'' then 1 else 0)\<rparr>)
             (findall dv true_false_pattern raw_text) \<and>
      (\<forall>m \<in> set (findall dv true_false_pattern raw_text). m ! 1 = str ''1'' \<or> m ! 1 = str ''0'') \<and>
      (\<forall>r \<in> set rs. answer r = 0 \<or> answer r = 1) \<and>
      parse_true_false_binary dv earth_text = Inr [\<lparr>question = str ''Is Earth round?'', answer = 1\<rparr>]"
proof -
  let ?ms = "findall dv true_false_pattern raw_text"
  let ?rs = "map (\<lambda>m. \<lparr>question = strip (m ! 0), answer = (if m ! 1 = str ''1'' then 1 else 0)\<rparr>) ?ms"
  have one: "str ''1'' = [49]" and zero: "str ''0'' = [48]" by (simp_all add: str_def)
  have a: "parse_true_false_binary dv raw_text = Inr ?rs"
    by (simp add: parse_true_false_binary_eq [OF assms] one)
  have b: "\<forall>m \<in> set ?ms. m ! 1 = str ''1'' \<or> m ! 1 = str ''0''"
  proof
    fix m assume "m \<in> set ?ms"
    from findall_true_false_shape [OF this] show "m ! 1 = str ''1'' \<or> m ! 1 = str ''0''"
      by (auto simp: one zero)
  qed
  have c: "\<forall>r \<in> set ?rs. answer r = 0 \<or> answer r = 1" by auto
  have d: "parse_true_false_binary dv earth_text =
      Inr [\<lparr>question = str ''Is Earth round?'', answer = 1\<rparr>]"
    by (simp add: decimal_ascii [OF assms] earth_text_def eval_simps)
  from a b c d show ?thesis by blast
qed

theorem parse_true_false_binary_answers_witness:
  "unicode_decimal ascii_decimal \<and>
   parse_true_false_binary ascii_decimal earth_text =
     Inr [\<lparr>question = str ''Is Earth round?'', answer = 1\<rparr>] \<and>
   findall ascii_decimal true_false_pattern earth_text = [[str ''Is Earth round?'', str ''1'']]"
proof -
  have ev: "findall ascii_decimal true_false_pattern earth_text = [[str ''Is Earth round?'', str ''1'']]"
    by (simp add: earth_text_def eval_simps)
  from parse_true_false_binary_answers [OF unicode_decimal_ascii, of earth_text]
  have "parse_true_false_binary ascii_decimal earth_text =
     Inr [\<lparr>question = str ''Is Earth round?'', answer = 1\<rparr>]" by blast
  with ev unicode_decimal_ascii show ?thesis by simp
qed

text \<open>
  Claim C8. None of the three parsers raises, whatever the text: each returns a list,
  with no more entries than there are \<open>Start:\<close> markers in the text. On a text with no
  \<open>Start:\<close> and no \<open>End:\<close> marker each returns the empty list.
\<close>

theorem parsers_never_raise:
  assumes "unicode_decimal dv"
  shows "(\<exists>rs. parse_questions dv text = Inr rs \<and> length rs \<le> occurrences Start_marker text) \<and>
     (\<exists>rs. parse_true_false_binary dv text = Inr rs \<and> length rs \<le> occurrences Start_marker text) \<and>
     (\<exists>qs. parse_open_questions text = Inr qs \<and> length qs \<le> occurrences Start_marker text) \<and>
     (\<not> sublist Start_marker text \<and> \<not> sublist End_marker text \<longrightarrow>
        parse_questions dv text = Inr [] \<and> parse_true_false_binary dv text = Inr [] \<and>
        parse_open_questions text = Inr [])"
proof (intro conjI impI)
  have "length (records_of dv (findall dv questions_pattern text))
      \<le> length (findall dv questions_pattern text)"
    by (rule records_of_length)
  also have "\<dots> \<le> occurrences Start_marker text"
    by (rule findall_length_le) (rule questions_pattern_Start)
  finally show "\<exists>rs. parse_questions dv text = Inr rs \<and> length rs \<le> occurrences Start_marker text"
    by (simp add: parse_questions_eq [OF assms])
  have "length (findall dv true_false_pattern text) \<le> occurrences Start_marker text"
    by (rule findall_length_le) (rule true_false_pattern_Start)
  then show "\<exists>rs. parse_true_false_binary dv text = Inr rs \<and>
      length rs \<le> occurrences Start_marker text"
    by (simp add: parse_true_false_binary_eq [OF assms])
  show "\<exists>qs. parse_open_questions text = Inr qs \<and> length qs \<le> occurrences Start_marker text"
    by (simp add: parse_open_questions_eq length_split_Start)
next
  assume n: "\<not> sublist Start_marker text \<and> \<not> sublist End_marker text"
  then have nS: "\<not> sublist Start_marker text" by simp
  show "parse_questions dv text = Inr []"
    by (simp add: parse_questions_eq [OF assms] findall_questions_none [OF nS])
  show "parse_true_false_binary dv text = Inr []"
    by (simp add: parse_true_false_binary_eq [OF assms] findall_true_false_none [OF nS])
  from nS have "find_str Start_marker text = None" by (simp add: find_str_None)
  then show "parse_open_questions text = Inr []"
    by (simp add: parse_open_questions_eq split_pieces_None)
qed

theorem parsers_never_raise_witness:
  "unicode_decimal ascii_decimal \<and>
   \<not> sublist Start_marker (str ''no markers here'') \<and>
   \<not> sublist End_marker (str ''no markers here'') \<and>
   parse_questions ascii_decimal (str ''no markers here'') = Inr [] \<and>
   parse_true_false_binary ascii_decimal (str ''no markers here'') = Inr [] \<and>
   parse_open_questions (str ''no markers here'') = Inr []"
proof -
  have n: "\<not> sublist Start_marker (str ''no markers here'') \<and>
      \<not> sublist End_marker (str ''no markers here'')"
    by (simp add: marker_eqs str_def sublist_Cons_right)
  with parsers_never_raise [OF unicode_decimal_ascii, of "str ''no markers here''"]
    unicode_decimal_ascii
  show ?thesis by blast
qed

section \<open>The requester\<close>

text \<open>
  \<^verbatim>\<open>
  async def request_ai(prompt: str) -> Dict[str, Any]:
      for model in top_models:
          logger.info(f"Trying model '{model}'...")
          start_time = time.time()
          try:
              response = await asyncio.wait_for(
                  asyncio.to_thread(
                      lambda: client.chat.completions.create(
                          model=model,
                          messages=[{"role": "user", "content": prompt}],
                          temperature=0, web_search=False, stream=False)),
                  timeout=90)
              elapsed = time.time() - start_time
              content = response.choices[0].message.content.strip()
              logger.info(f"Model '{model}' returned a response successfully ...")
              return {"model": model, "content": content, "time": elapsed}
          except asyncio.TimeoutError:
              ...
              logger.warning(f"Model '{model}' timed out ...")
              continue
          except Exception as e:
              ...
              logger.error(f"Model '{model}' failed ...")
              continue
      logger.warning("No model returned a valid response.")
      return {"model": None, "content": "Brak odpowiedzi od \u017cadnego modelu.", "time": None}
  \<close>
  The client is outside the program: it is a parameter, a function from the model and the
  prompt to what the call does, which is to time out, to raise, or to return a response
  after some time. A response is the list of its choices, each with the content of its
  message, which may be missing. Reading \<open>choices[0]\<close> of no choices and calling
  \<open>strip\<close> on a missing content raise inside \<open>try\<close>, and \<open>except Exception\<close> takes
  them as it takes a failure of the call. The messages of the logger are kept as a list of
  events: they tell which models were tried, in which order. The loop calls each model of
  the list at most once, so a function of the model says as much as a client with a state
  would. Waiting, the worker thread and the cancellation of the task are left out.
\<close>

definition top_models :: "pystr list" where
  "top_models =
     [str ''gpt-4'',
      str ''gpt-4.1'',
      str ''gpt-4.1-mini'',
      str ''gpt-4.1-nano'',
      str ''gpt-4.5'',
      str ''deepseek-v3'',
      str ''deepseek-r1'',
      str ''deepseek-r1-turbo'',
      str ''deepseek-v3-0324'',
      str ''deepseek-v3-0324-turbo'',
      str ''deepseek-r1-0528'',
      str ''deepseek-r1-0528-turbo'',
      str ''deepseek-r1-distill-llama-70b'',
      str ''deepseek-r1-distill-qwen-14b'',
      str ''deepseek-r1-distill-qwen-32b'',
      str ''grok-3'',
      str ''grok-3-r1'']"

datatype 't outcome = TimedOut | Raised | Returned "pystr option list" 't

datatype event =
    TryingInfo pystr
  | ReturnedInfo pystr
  | TimedOutWarning pystr
  | FailedError pystr
  | NoModelWarning

record 't attempt_result =
  model :: "pystr option"
  content :: pystr
  time :: "'t option"

text \<open>The message of the last line; its letter \<open>U+017C\<close> is the code point 380.\<close>

definition no_answer :: pystr where
  "no_answer = str ''Brak odpowiedzi od '' @ [380] @ str ''adnego modelu.''"

fun request_loop ::
  "(pystr \<Rightarrow> pystr \<Rightarrow> 't outcome) \<Rightarrow> pystr \<Rightarrow> pystr list \<Rightarrow> event list \<Rightarrow>
   't attempt_result \<times> event list"
where
  "request_loop client prompt [] log =
     (\<lparr>model = None, content = no_answer, time = None\<rparr>, log @ [NoModelWarning])"
| "request_loop client prompt (m # ms) log =
     (case client m prompt of
        TimedOut \<Rightarrow>
          request_loop client prompt ms (log @ [TryingInfo m, TimedOutWarning m])
      | Raised \<Rightarrow>
          request_loop client prompt ms (log @ [TryingInfo m, FailedError m])
      | Returned choices elapsed \<Rightarrow>
          (case choices of
             [] \<Rightarrow> request_loop client prompt ms (log @ [TryingInfo m, FailedError m])
           | None # other \<Rightarrow>
               request_loop client prompt ms (log @ [TryingInfo m, FailedError m])
           | Some text # other \<Rightarrow>
               (\<lparr>model = Some m, content = strip text, time = Some elapsed\<rparr>,
                log @ [TryingInfo m, ReturnedInfo m])))"

definition request_ai ::
  "(pystr \<Rightarrow> pystr \<Rightarrow> 't outcome) \<Rightarrow> pystr \<Rightarrow> 't attempt_result \<times> event list" where
  "request_ai client prompt = request_loop client prompt top_models []"

text \<open>The content that a call gives to the loop, if it gives one.\<close>

fun reply :: "'t outcome \<Rightarrow> pystr option" where
  "reply (Returned (Some text # other) elapsed) = Some text"
| "reply other = None"

text \<open>The models that a log shows as tried, in order.\<close>

fun attempts :: "event list \<Rightarrow> pystr list" where
  "attempts [] = []"
| "attempts (TryingInfo m # es) = m # attempts es"
| "attempts (e # es) = attempts es"

lemma attempts_append: "attempts (a @ b) = attempts a @ attempts b"
  by (induction a rule: attempts.induct) simp_all

fun failure_event :: "'t outcome \<Rightarrow> pystr \<Rightarrow> event" where
  "failure_event TimedOut m = TimedOutWarning m"
| "failure_event other m = FailedError m"

lemma attempts_failure_event: "attempts [failure_event out m] = []"
  by (cases out) simp_all

lemma request_loop_failed:
  "reply (client m prompt) = None \<Longrightarrow>
   request_loop client prompt (m # ms) log =
     request_loop client prompt ms (log @ [TryingInfo m, failure_event (client m prompt) m])"
  by (cases "(client m prompt)" rule: reply.cases) auto

lemma request_loop_returned:
  "reply (client m prompt) = Some text \<Longrightarrow>
   \<exists>elapsed. request_loop client prompt (m # ms) log =
     (\<lparr>model = Some m, content = strip text, time = Some elapsed\<rparr>,
      log @ [TryingInfo m, ReturnedInfo m])"
  by (cases "(client m prompt)" rule: reply.cases) auto

lemma request_loop_prefix:
  "\<exists>n\<le>length ms. attempts (snd (request_loop client prompt ms log)) = attempts log @ take n ms"
proof (induction ms arbitrary: log)
  case Nil
  then show ?case by (simp add: attempts_append)
next
  case (Cons m ms)
  show ?case
  proof (cases "reply (client m prompt)")
    case None
    define e where "e = failure_event (client m prompt) m"
    have e: "attempts [e] = []"
      "request_loop client prompt (m # ms) log = request_loop client prompt ms (log @ [TryingInfo m, e])"
      unfolding e_def
      by (rule attempts_failure_event)
        (rule request_loop_failed [where client = client and m = m and prompt = prompt, OF None])
    from Cons.IH [of "log @ [TryingInfo m, e]"] obtain n where
      n: "n \<le> length ms"
      "attempts (snd (request_loop client prompt ms (log @ [TryingInfo m, e]))) =
         attempts (log @ [TryingInfo m, e]) @ take n ms"
      by (elim exE conjE)
    have "attempts (log @ [TryingInfo m, e]) = attempts log @ [m]"
      using e(1) by (simp add: attempts_append)
    with n e(2) have "attempts (snd (request_loop client prompt (m # ms) log)) =
        attempts log @ take (Suc n) (m # ms)" by simp
    with n(1) show ?thesis by (intro exI [of _ "Suc n"]) simp
  next
    case (Some body)
    from request_loop_returned [where client = client and m = m and prompt = prompt, OF Some, of ms log] obtain elapsed where
      "request_loop client prompt (m # ms) log =
         (\<lparr>model = Some m, content = strip body, time = Some elapsed\<rparr>,
          log @ [TryingInfo m, ReturnedInfo m])" by (elim exE)
    then have "attempts (snd (request_loop client prompt (m # ms) log)) =
        attempts log @ take (Suc 0) (m # ms)" by (simp add: attempts_append)
    then show ?thesis by (intro exI [of _ "Suc 0"]) simp
  qed
qed

lemma request_loop_first_success:
  assumes "k < length ms" "reply (client (ms ! k) prompt) = Some text"
    "\<forall>j<k. reply (client (ms ! j) prompt) = None"
  shows "attempts (snd (request_loop client prompt ms log)) = attempts log @ take (Suc k) ms \<and>
     model (fst (request_loop client prompt ms log)) = Some (ms ! k) \<and>
     content (fst (request_loop client prompt ms log)) = strip text"
  using assms
proof (induction ms arbitrary: log k)
  case Nil
  then show ?case by simp
next
  case (Cons m ms)
  show ?case
  proof (cases k)
    case 0
    with Cons.prems have "reply (client m prompt) = Some text" by simp
    from request_loop_returned [where client = client and m = m and prompt = prompt, OF this, of ms log]
    show ?thesis
      using 0 by (auto simp: attempts_append)
  next
    case (Suc k')
    with Cons.prems have None: "reply (client m prompt) = None" by auto
    define e where "e = failure_event (client m prompt) m"
    have e: "attempts [e] = []"
      "request_loop client prompt (m # ms) log = request_loop client prompt ms (log @ [TryingInfo m, e])"
      unfolding e_def
      by (rule attempts_failure_event)
        (rule request_loop_failed [where client = client and m = m and prompt = prompt, OF None])
    have k': "k' < length ms" "reply (client (ms ! k') prompt) = Some text"
      using Cons.prems Suc by simp_all
    have "\<forall>j<k'. reply (client (ms ! j) prompt) = None"
    proof (intro allI impI)
      fix j assume "j < k'"
      then have "Suc j < k" using Suc by simp
      with Cons.prems(3) have "reply (client ((m # ms) ! Suc j) prompt) = None" by blast
      then show "reply (client (ms ! j) prompt) = None" by simp
    qed
    from Cons.IH [OF k' this, of "log @ [TryingInfo m, e]"] e Suc show ?thesis
      by (simp add: attempts_append)
  qed
qed

lemma request_loop_all_failed:
  assumes "\<forall>m \<in> set ms. reply (client m prompt) = None"
  shows "fst (request_loop client prompt ms log) = \<lparr>model = None, content = no_answer, time = None\<rparr> \<and>
     attempts (snd (request_loop client prompt ms log)) = attempts log @ ms"
  using assms
proof (induction ms arbitrary: log)
  case Nil
  then show ?case by (simp add: attempts_append)
next
  case (Cons m ms)
  then have None: "reply (client m prompt) = None" by simp
  define e where "e = failure_event (client m prompt) m"
  have e: "attempts [e] = []"
    "request_loop client prompt (m # ms) log = request_loop client prompt ms (log @ [TryingInfo m, e])"
    unfolding e_def
    by (rule attempts_failure_event)
      (rule request_loop_failed [where client = client and m = m and prompt = prompt, OF None])
  from Cons.prems have "\<forall>m \<in> set ms. reply (client m prompt) = None" by simp
  from Cons.IH [OF this, of "log @ [TryingInfo m, e]"] e show ?case
    by (simp add: attempts_append)
qed

lemma top_models_length: "length top_models = 17"
  by (simp add: top_models_def)

lemma top_models_distinct: "distinct top_models"
  by (simp add: top_models_def str_def)

section \<open>Claims about the requester\<close>

definition second_answers :: "pystr \<Rightarrow> pystr \<Rightarrow> nat outcome" where
  "second_answers m prompt =
     (if m = str ''gpt-4.1'' then Returned [Some (str '' ok '')] 3
      else if m = str ''gpt-4'' then TimedOut
      else Returned [Some (str ''late'')] 5)"

text \<open>
  Claim C1. Whatever the client and the prompt, \<open>request_ai\<close> tries the models of its list
  of seventeen in the order of the list, each at most once: the models tried are a prefix
  of the list, which has no repetition. When the call of the model at index \<open>k\<close> is the
  first that gives a content, the models tried are exactly the first \<open>k + 1\<close>, so none
  after it is called, and the record returned has that model and its content, trimmed.
\<close>

theorem request_ai_first_success:
  "length top_models = 17 \<and> distinct top_models \<and>
   prefix (attempts (snd (request_ai client prompt))) top_models \<and>
   distinct (attempts (snd (request_ai client prompt))) \<and>
   (\<forall>k body.
      k < length top_models \<and> reply (client (top_models ! k) prompt) = Some body \<and>
      (\<forall>j<k. reply (client (top_models ! j) prompt) = None)
      \<longrightarrow> attempts (snd (request_ai client prompt)) = take (Suc k) top_models \<and>
          model (fst (request_ai client prompt)) = Some (top_models ! k) \<and>
          content (fst (request_ai client prompt)) = strip body)"
proof (intro conjI allI impI)
  show "length top_models = 17" by (rule top_models_length)
  show "distinct top_models" by (rule top_models_distinct)
  from request_loop_prefix [of top_models client prompt "[]"] obtain n where
    n: "attempts (snd (request_ai client prompt)) = take n top_models"
    by (auto simp: request_ai_def)
  show "prefix (attempts (snd (request_ai client prompt))) top_models"
    unfolding n by (rule take_is_prefix)
  show "distinct (attempts (snd (request_ai client prompt)))"
    unfolding n using top_models_distinct by (rule distinct_take)
next
  fix k body
  assume a: "k < length top_models \<and> reply (client (top_models ! k) prompt) = Some body \<and>
      (\<forall>j<k. reply (client (top_models ! j) prompt) = None)"
  then have "k < length top_models" "reply (client (top_models ! k) prompt) = Some body"
    "\<forall>j<k. reply (client (top_models ! j) prompt) = None" by simp_all
  from request_loop_first_success [where client = client and prompt = prompt and ms = top_models and k = k, OF this, of "[]"]
  show "attempts (snd (request_ai client prompt)) = take (Suc k) top_models"
    and "model (fst (request_ai client prompt)) = Some (top_models ! k)"
    and "content (fst (request_ai client prompt)) = strip body"
    by (simp_all add: request_ai_def)
qed

theorem request_ai_first_success_witness:
  "attempts (snd (request_ai second_answers (str ''hello''))) = [str ''gpt-4'', str ''gpt-4.1''] \<and>
   model (fst (request_ai second_answers (str ''hello''))) = Some (str ''gpt-4.1'') \<and>
   content (fst (request_ai second_answers (str ''hello''))) = str ''ok''"
proof -
  have k: "(1::nat) < length top_models" by (simp add: top_models_length)
  have m1: "top_models ! 1 = str ''gpt-4.1''" and m0: "top_models ! 0 = str ''gpt-4''"
    by (simp_all add: top_models_def)
  have r1: "reply (second_answers (top_models ! 1) (str ''hello'')) = Some (str '' ok '')"
    unfolding m1 by (simp add: second_answers_def)
  have r0: "\<forall>j<1. reply (second_answers (top_models ! j) (str ''hello'')) = None"
    using m0 by (simp add: second_answers_def str_def)
  have t: "take (Suc 1) top_models = [str ''gpt-4'', str ''gpt-4.1'']"
    by (simp add: top_models_def)
  have s: "strip (str '' ok '') = str ''ok''" by (simp add: strip_def str_def isspace_def)
  from request_ai_first_success [of second_answers "str ''hello''"] k r1 r0
  have "attempts (snd (request_ai second_answers (str ''hello''))) = take (Suc 1) top_models \<and>
      model (fst (request_ai second_answers (str ''hello''))) = Some (top_models ! 1) \<and>
      content (fst (request_ai second_answers (str ''hello''))) = strip (str '' ok '')"
    by blast
  then show ?thesis by (simp only: t m1 s)
qed

lemma no_answer_no_Start: "\<not> sublist Start_marker no_answer"
  by (simp add: no_answer_def Start_marker_eq str_def sublist_Cons_right)

definition always_times_out :: "pystr \<Rightarrow> pystr \<Rightarrow> nat outcome" where
  "always_times_out m prompt = TimedOut"

text \<open>
  Claim C2. When no call gives a content, \<open>request_ai\<close> has tried every model and returns
  the record with no model, the message \<open>no_answer\<close> and no time; it does not raise. Each
  of the three parsers, given the content of that record, returns the empty list.
\<close>

theorem request_ai_all_failed:
  assumes "\<forall>m \<in> set top_models. reply (client m prompt) = None" and "unicode_decimal dv"
  shows "fst (request_ai client prompt) = \<lparr>model = None, content = no_answer, time = None\<rparr> \<and>
     attempts (snd (request_ai client prompt)) = top_models \<and>
     parse_questions dv (content (fst (request_ai client prompt))) = Inr [] \<and>
     parse_true_false_binary dv (content (fst (request_ai client prompt))) = Inr [] \<and>
     parse_open_questions (content (fst (request_ai client prompt))) = Inr []"
proof -
  from request_loop_all_failed [where client = client and prompt = prompt and ms = top_models, OF assms(1), of "[]"]
  have r: "fst (request_ai client prompt) = \<lparr>model = None, content = no_answer, time = None\<rparr>"
    and a: "attempts (snd (request_ai client prompt)) = top_models"
    by (simp_all add: request_ai_def)
  have c: "content (fst (request_ai client prompt)) = no_answer" by (simp add: r)
  have "find_str Start_marker no_answer = None"
    using no_answer_no_Start by (simp add: find_str_None)
  then have o: "parse_open_questions no_answer = Inr []"
    by (simp add: parse_open_questions_eq split_pieces_None)
  have q: "parse_questions dv no_answer = Inr []"
    by (simp add: parse_questions_eq [OF assms(2)] findall_questions_none [OF no_answer_no_Start])
  have t: "parse_true_false_binary dv no_answer = Inr []"
    by (simp add: parse_true_false_binary_eq [OF assms(2)]
        findall_true_false_none [OF no_answer_no_Start])
  from r a o q t show ?thesis by (simp only: c) simp
qed

theorem request_ai_all_failed_witness:
  "fst (request_ai always_times_out (str ''hello'')) =
     \<lparr>model = None, content = no_answer, time = None\<rparr> \<and>
   attempts (snd (request_ai always_times_out (str ''hello''))) = top_models \<and>
   parse_questions ascii_decimal (content (fst (request_ai always_times_out (str ''hello'')))) =
     Inr [] \<and>
   parse_true_false_binary ascii_decimal
     (content (fst (request_ai always_times_out (str ''hello'')))) = Inr [] \<and>
   parse_open_questions (content (fst (request_ai always_times_out (str ''hello'')))) = Inr []"
proof -
  have "\<forall>m \<in> set top_models. reply (always_times_out m (str ''hello'')) = None"
    by (simp add: always_times_out_def)
  from request_ai_all_failed [where client = always_times_out and prompt = "str ''hello''",
      OF this unicode_decimal_ascii]
  show ?thesis .
qed

section \<open>The claim about well-formed multiple-choice blocks\<close>

definition spec_example_text :: pystr where
  "spec_example_text =
     str ''Start: Q1 End: OptionsStart: A'' @ [10] @ str ''B'' @ [10] @ str ''C'' @ [10] @
     str ''D'' @ [10] @ str ''2 OptionsEnd:''"

definition spec_example_block :: choice_block where
  "spec_example_block =
     \<lparr>lead = [], after_Start = str '' '', block_question = str ''Q1'',
      after_question = str '' '', after_End = str '' '', after_OptionsStart = str '' '',
      block_options = [str ''A'', str ''B'', str ''C'', str ''D''], after_options = [10],
      block_index = 2, after_index = str '' ''\<rparr>"

definition template_block :: choice_block where
  "template_block =
     \<lparr>lead = [10, 10], after_Start = [10], block_question = str ''Which crop needs most water?'',
      after_question = [10], after_End = [10], after_OptionsStart = [10],
      block_options = [str ''Rice'', str ''Wheat'', str ''Maize'', str ''Rye''],
      after_options = [10], block_index = 0, after_index = [10]\<rparr>"

lemma spec_example_block_ok: "well_formed_block spec_example_block"
  by (simp add: spec_example_block_def well_formed_block_def well_formed_option_def tight_def
      blank_def strip_def isspace_def islinebreak_def marker_eqs str_def sublist_Cons_right)

lemma template_block_ok: "well_formed_block template_block"
  by (simp add: template_block_def well_formed_block_def well_formed_option_def tight_def
      blank_def strip_def isspace_def islinebreak_def marker_eqs str_def sublist_Cons_right)

text \<open>
  Claim C4. For every document of well-formed blocks, each with four option lines,
  \<open>parse_questions\<close> returns one record for each block, in the order of the blocks, with
  the question, the four options in order and the digit of the block as they stand in the
  text. On the example of the specification (\<open>spec_example_text\<close>: the options \<open>A\<close>,
  \<open>B\<close>, \<open>C\<close>, \<open>D\<close> and the digit 2, each followed by a line feed or a blank) it
  returns the one record with question \<open>Q1\<close>, these options and index 2.
\<close>

theorem parse_questions_well_formed:
  assumes "unicode_decimal dv" and "list_all well_formed_block blocks"
    and "\<not> sublist Start_marker rest"
  shows "parse_questions dv (document blocks rest) = Inr (map block_record blocks) \<and>
     parse_questions dv spec_example_text =
       Inr [\<lparr>question = str ''Q1'', options = [str ''A'', str ''B'', str ''C'', str ''D''],
             correctOptionIndex = 2\<rparr>]"
proof
  show "parse_questions dv (document blocks rest) = Inr (map block_record blocks)"
    by (simp only: parse_questions_eq [OF assms(1)] findall_document [OF assms]
        records_of_blocks [OF assms(1,2)])
  show "parse_questions dv spec_example_text =
       Inr [\<lparr>question = str ''Q1'', options = [str ''A'', str ''B'', str ''C'', str ''D''],
             correctOptionIndex = 2\<rparr>]"
    by (simp add: decimal_ascii [OF assms(1)] spec_example_text_def eval_simps)
qed

theorem parse_questions_well_formed_witness:
  "unicode_decimal ascii_decimal \<and>
   list_all well_formed_block [spec_example_block, template_block] \<and>
   \<not> sublist Start_marker (str ''The end.'') \<and>
   document [spec_example_block] [] = spec_example_text \<and>
   parse_questions ascii_decimal
     (document [spec_example_block, template_block] (str ''The end.'')) =
     Inr [\<lparr>question = str ''Q1'', options = [str ''A'', str ''B'', str ''C'', str ''D''],
           correctOptionIndex = 2\<rparr>,
          \<lparr>question = str ''Which crop needs most water?'',
           options = [str ''Rice'', str ''Wheat'', str ''Maize'', str ''Rye''],
           correctOptionIndex = 0\<rparr>]"
proof -
  have w: "list_all well_formed_block [spec_example_block, template_block]"
    by (simp add: spec_example_block_ok template_block_ok)
  have r: "\<not> sublist Start_marker (str ''The end.'')"
    by (simp add: marker_eqs str_def sublist_Cons_right)
  have d: "document [spec_example_block] [] = spec_example_text"
    by (simp add: spec_example_block_def spec_example_text_def render_block_def marker_eqs str_def)
  have m: "map block_record [spec_example_block, template_block] =
      [\<lparr>question = str ''Q1'', options = [str ''A'', str ''B'', str ''C'', str ''D''],
           correctOptionIndex = 2\<rparr>,
          \<lparr>question = str ''Which crop needs most water?'',
           options = [str ''Rice'', str ''Wheat'', str ''Maize'', str ''Rye''],
           correctOptionIndex = 0\<rparr>]"
    by (simp add: block_record_def spec_example_block_def template_block_def)
  from parse_questions_well_formed [OF unicode_decimal_ascii w r]
  have "parse_questions ascii_decimal
     (document [spec_example_block, template_block] (str ''The end.'')) =
     Inr (map block_record [spec_example_block, template_block])" by simp
  with w r d unicode_decimal_ascii show ?thesis by (simp only: m) simp
qed

end
